theory Spec2Isabelle
  imports Complex_Main "HOL-Library.AList" "HOL-Library.Char_ord" "HOL-Library.List_Lexorder"
begin

section \<open>Data frames\<close>

text \<open>
  Both scripts (\<^verbatim>\<open>covid_tracker.py\<close>, \<^verbatim>\<open>covid_dashboard.py\<close>) work on a pandas
  data frame read from a CSV file. A frame is modelled column-wise, as pandas stores it:
  the \<^verbatim>\<open>location\<close> column (strings), the \<^verbatim>\<open>date\<close> column (days, as integers) and
  the numeric columns, an association list from column name to series in column order.
  A numeric cell is a float or NaN; NaN is \<open>None\<close>, and a float is modelled by the real
  number it denotes (rounding is not modelled).
\<close>

type_synonym series = "real option list"

record frame =
  locations :: "string list"
  dates :: "int list"
  cols :: "(string \<times> series) list"

datatype error = KeyError string

definition nrows :: "frame \<Rightarrow> nat" where
  "nrows f = length (locations f)"

text \<open>A frame is rectangular and \<^verbatim>\<open>read_csv\<close> gives its columns distinct names.\<close>

definition wf_frame :: "frame \<Rightarrow> bool" where
  "wf_frame f \<longleftrightarrow>
     length (dates f) = nrows f \<and>
     list_all (\<lambda>p. length (snd p) = nrows f) (cols f) \<and>
     distinct (map fst (cols f))"

text \<open>\<^verbatim>\<open>df[c]\<close>: the column, or \<^verbatim>\<open>KeyError\<close> when the frame has no such column.\<close>

definition getcol :: "frame \<Rightarrow> string \<Rightarrow> error + series" where
  "getcol f c = (case map_of (cols f) c of None \<Rightarrow> Inl (KeyError c) | Some s \<Rightarrow> Inr s)"

text \<open>\<^verbatim>\<open>df[c] = s\<close>: replaces the column in place, or appends a new one.\<close>

definition setcol :: "frame \<Rightarrow> string \<Rightarrow> series \<Rightarrow> frame" where
  "setcol f c s = f\<lparr>cols := AList.update c s (cols f)\<rparr>"

subsection \<open>Boolean masks\<close>

definition keep :: "bool list \<Rightarrow> 'a list \<Rightarrow> 'a list" where
  "keep msk xs = map snd (filter fst (zip msk xs))"

text \<open>\<^verbatim>\<open>df[mask]\<close>: the rows at which the mask holds, in the frame's order.\<close>

definition select_rows :: "bool list \<Rightarrow> frame \<Rightarrow> frame" where
  "select_rows msk f =
     \<lparr>locations = keep msk (locations f),
      dates = keep msk (dates f),
      cols = map (\<lambda>p. (fst p, keep msk (snd p))) (cols f)\<rparr>"

definition isin :: "'a list \<Rightarrow> 'a list \<Rightarrow> bool list" where
  "isin xs vs = map (\<lambda>x. x \<in> set vs) xs"

definition and_mask :: "bool list \<Rightarrow> bool list \<Rightarrow> bool list" where
  "and_mask a b = map2 (\<and>) a b"

text \<open>\<^verbatim>\<open>s > 0\<close> is false at NaN; \<^verbatim>\<open>s.notna()\<close>.\<close>

definition gt0 :: "series \<Rightarrow> bool list" where
  "gt0 s = map (\<lambda>x. case x of None \<Rightarrow> False | Some v \<Rightarrow> 0 < v) s"

definition notna :: "series \<Rightarrow> bool list" where
  "notna s = map (\<lambda>x. x \<noteq> None) s"

subsection \<open>Element-wise arithmetic\<close>

text \<open>
  Float division: NaN when an operand is NaN. A zero divisor gives an infinity or NaN in
  the source; the model has no infinities and returns \<open>None\<close> there. The only divisions of
  the scripts are under \<^verbatim>\<open>np.where\<close> with a condition that requires a positive divisor,
  so such a cell is never selected.
\<close>

definition fdiv :: "real option \<Rightarrow> real option \<Rightarrow> real option" where
  "fdiv a b =
     (case a of None \<Rightarrow> None
      | Some x \<Rightarrow> (case b of None \<Rightarrow> None
                   | Some y \<Rightarrow> if y = 0 then None else Some (x / y)))"

definition div_series :: "series \<Rightarrow> series \<Rightarrow> series" where
  "div_series a b = map2 fdiv a b"

definition mul_scalar :: "series \<Rightarrow> real \<Rightarrow> series" where
  "mul_scalar s c = map (map_option (\<lambda>v. v * c)) s"

text \<open>\<^verbatim>\<open>np.where(mask, s, np.nan)\<close>.\<close>

definition where_nan :: "bool list \<Rightarrow> series \<Rightarrow> series" where
  "where_nan msk s = map2 (\<lambda>c x. if c then x else None) msk s"

subsection \<open>Grouped transforms\<close>

text \<open>
  \<^verbatim>\<open>df.groupby(key)[c].transform(fn)\<close> splits the column into one series per key value
  (each in the frame's row order), applies \<^verbatim>\<open>fn\<close> to each, and puts every result back
  at the row it came from.
\<close>

definition group_rows :: "'k list \<Rightarrow> 'k \<Rightarrow> nat list" where
  "group_rows keys k = filter (\<lambda>j. keys ! j = k) [0..<length keys]"

definition group_series :: "'k list \<Rightarrow> 'v list \<Rightarrow> 'k \<Rightarrow> 'v list" where
  "group_series keys xs k = map (\<lambda>j. xs ! j) (group_rows keys k)"

definition rank_in_group :: "'k list \<Rightarrow> nat \<Rightarrow> nat" where
  "rank_in_group keys i = length (filter (\<lambda>k. k = keys ! i) (take i keys))"

definition groupby_transform :: "'k list \<Rightarrow> ('v list \<Rightarrow> 'w list) \<Rightarrow> 'v list \<Rightarrow> 'w list" where
  "groupby_transform keys fn xs =
     map (\<lambda>i. fn (group_series keys xs (keys ! i)) ! rank_in_group keys i) [0..<length keys]"

subsection \<open>Forward fill\<close>

text \<open>\<^verbatim>\<open>x.fillna(method='ffill')\<close>: a scan that carries the last value seen.\<close>

fun ffill_from :: "'a option \<Rightarrow> 'a option list \<Rightarrow> 'a option list" where
  "ffill_from prev [] = []"
| "ffill_from prev (None # xs) = prev # ffill_from prev xs"
| "ffill_from prev (Some v # xs) = Some v # ffill_from (Some v) xs"

definition ffill :: "'a option list \<Rightarrow> 'a option list" where
  "ffill xs = ffill_from None xs"

text \<open>
  One round of the loop over \<^verbatim>\<open>key_metrics\<close>: a metric that is not a column of the
  frame is skipped.
\<close>

definition ffill_metric :: "string \<Rightarrow> frame \<Rightarrow> frame" where
  "ffill_metric m f =
     (case map_of (cols f) m of
        None \<Rightarrow> f
      | Some s \<Rightarrow> setcol f m (groupby_transform (locations f) ffill s))"

definition ffill_all :: "string list \<Rightarrow> frame \<Rightarrow> frame" where
  "ffill_all ms f = fold ffill_metric ms f"

section \<open>The cleaning pipelines\<close>

definition rate_series :: "series \<Rightarrow> series \<Rightarrow> series" where
  "rate_series den num =
     where_nan (and_mask (gt0 den) (notna num)) (mul_scalar (div_series num den) 100)"

text \<open>
  \<^verbatim>\<open>df[out] = np.where((df[den] > 0) & (df[num].notna()), df[num] / df[den] * 100, np.nan)\<close>;
  the denominator's column is read first.
\<close>

definition add_rate :: "string \<Rightarrow> string \<Rightarrow> string \<Rightarrow> frame \<Rightarrow> error + frame" where
  "add_rate out num den f =
     (case getcol f den of
        Inl e \<Rightarrow> Inl e
      | Inr d \<Rightarrow> (case getcol f num of
                   Inl e \<Rightarrow> Inl e
                 | Inr n \<Rightarrow> Inr (setcol f out (rate_series d n))))"

definition add_death_rate :: "frame \<Rightarrow> error + frame" where
  "add_death_rate f = add_rate ''death_rate'' ''total_deaths'' ''total_cases'' f"

definition add_vaccination_rate :: "frame \<Rightarrow> error + frame" where
  "add_vaccination_rate f = add_rate ''vaccination_rate'' ''people_vaccinated'' ''population'' f"

subsection \<open>covid_tracker.py\<close>

definition countries :: "string list" where
  "countries = [''United States'', ''India'', ''Brazil'', ''United Kingdom'', ''Kenya'']"

definition tracker_key_metrics :: "string list" where
  "tracker_key_metrics =
     [''total_cases'', ''new_cases'', ''total_deaths'', ''new_deaths'', ''total_vaccinations'']"

definition tracker_filter :: "string list \<Rightarrow> frame \<Rightarrow> frame" where
  "tracker_filter cs df = select_rows (isin (locations df) cs) df"

definition tracker_clean :: "string list \<Rightarrow> frame \<Rightarrow> error + frame" where
  "tracker_clean cs df = add_death_rate (ffill_all tracker_key_metrics (tracker_filter cs df))"

subsection \<open>covid_dashboard.py\<close>

definition dashboard_key_metrics :: "string list" where
  "dashboard_key_metrics =
     [''total_cases'', ''new_cases'', ''total_deaths'', ''new_deaths'', ''total_vaccinations'',
      ''people_vaccinated'']"

definition dashboard_filter :: "string list \<Rightarrow> int \<Rightarrow> int \<Rightarrow> frame \<Rightarrow> frame" where
  "dashboard_filter cs start_date end_date df =
     select_rows
       (and_mask (and_mask (isin (locations df) cs) (map (\<lambda>d. start_date \<le> d) (dates df)))
          (map (\<lambda>d. d \<le> end_date) (dates df)))
       df"

definition dashboard_clean :: "string list \<Rightarrow> int \<Rightarrow> int \<Rightarrow> frame \<Rightarrow> error + frame" where
  "dashboard_clean cs start_date end_date df =
     (case add_death_rate
             (ffill_all dashboard_key_metrics (dashboard_filter cs start_date end_date df)) of
        Inl e \<Rightarrow> Inl e
      | Inr f \<Rightarrow> add_vaccination_rate f)"

section \<open>Presentation code that computes\<close>

subsection \<open>Rolling mean\<close>

text \<open>
  \<^verbatim>\<open>x.rolling(window=w).mean()\<close>: the window at position \<open>i\<close> holds the (at most
  \<open>w\<close>) values that end at \<open>i\<close>; the result is NaN unless the window has \<open>w\<close> values
  that are not NaN (\<^verbatim>\<open>min_periods\<close> defaults to the window size), and their mean otherwise.
\<close>

definition rolling_mean :: "nat \<Rightarrow> series \<Rightarrow> series" where
  "rolling_mean w xs =
     map (\<lambda>i. let win = drop (i + 1 - w) (take (i + 1) xs);
                   obs = map the (filter (\<lambda>x. x \<noteq> None) win)
               in if length obs < w then None else Some (sum_list obs / real (length obs)))
       [0..<length xs]"

text \<open>
  The tracker draws, for each country, the rolling mean of the \<^verbatim>\<open>new_cases\<close> of
  \<^verbatim>\<open>filtered_df[filtered_df['location'] == country]\<close>, the country's rows in the frame's
  order.
\<close>

definition tracker_rolling_avg :: "frame \<Rightarrow> string \<Rightarrow> error + series" where
  "tracker_rolling_avg f country =
     (case getcol f ''new_cases'' of
        Inl e \<Rightarrow> Inl e
      | Inr s \<Rightarrow> Inr (rolling_mean 7 (group_series (locations f) s country)))"

text \<open>
  The dashboard adds the column \<^verbatim>\<open>rolling_new_cases\<close> (and \<^verbatim>\<open>rolling_new_deaths\<close>) to
  a copy of the frame, by a grouped transform.
\<close>

definition dashboard_rolling :: "string \<Rightarrow> frame \<Rightarrow> error + frame" where
  "dashboard_rolling m f =
     (case getcol f m of
        Inl e \<Rightarrow> Inl e
      | Inr s \<Rightarrow> Inr (setcol f (''rolling_'' @ m) (groupby_transform (locations f) (rolling_mean 7) s)))"

subsection \<open>Latest snapshot\<close>

text \<open>\<^verbatim>\<open>df.iloc[idx]\<close>: the rows at the given positions.\<close>

definition take_rows :: "nat list \<Rightarrow> frame \<Rightarrow> frame" where
  "take_rows idx f =
     \<lparr>locations = map (\<lambda>i. locations f ! i) idx,
      dates = map (\<lambda>i. dates f ! i) idx,
      cols = map (\<lambda>p. (fst p, map (\<lambda>i. snd p ! i) idx)) (cols f)\<rparr>"

text \<open>
  \<^verbatim>\<open>groupby('location').apply(lambda x: x.sort_values('date').iloc[-1])\<close>: the groups come
  in the order of their keys; each group's rows are sorted by date and the last one is
  taken. \<^verbatim>\<open>sort_values\<close> is modelled by a stable sort; the source's default sort does not
  say which of two rows with the same date comes last.
\<close>

definition latest_rows :: "frame \<Rightarrow> nat list" where
  "latest_rows f =
     map (\<lambda>e. last (sort_key (\<lambda>j. dates f ! j) (group_rows (locations f) e)))
       (sort (remdups (locations f)))"

definition latest_data :: "frame \<Rightarrow> frame" where
  "latest_data f = take_rows (latest_rows f) f"

subsection \<open>Case growth over the last 30 observations\<close>

definition fsub :: "real option \<Rightarrow> real option \<Rightarrow> real option" where
  "fsub a b =
     (case a of None \<Rightarrow> None
      | Some x \<Rightarrow> (case b of None \<Rightarrow> None | Some y \<Rightarrow> Some (x - y)))"

definition fpos :: "real option \<Rightarrow> bool" where
  "fpos a = (case a of None \<Rightarrow> False | Some v \<Rightarrow> 0 < v)"

definition growth_of :: "real option \<Rightarrow> real option \<Rightarrow> real option" where
  "growth_of current month_ago =
     (if fpos month_ago then map_option (\<lambda>v. v * 100) (fdiv (fsub current month_ago) month_ago)
      else Some 0)"

text \<open>
  One round of the loop over \<^verbatim>\<open>countries\<close>: the line printed for the country (its name
  and growth), or no line. The column is read only when the country has 30 rows.
\<close>

definition growth_line :: "frame \<Rightarrow> string \<Rightarrow> error + (string \<times> real option) option" where
  "growth_line f country =
     (let country_data = sort_key (\<lambda>j. dates f ! j) (group_rows (locations f) country);
          n = length country_data
      in if 30 \<le> n then
           (case getcol f ''total_cases'' of
              Inl e \<Rightarrow> Inl e
            | Inr tc \<Rightarrow>
                Inr (Some (country,
                  growth_of (tc ! (country_data ! (n - 1))) (tc ! (country_data ! (n - 30))))))
         else Inr None)"

fun growth_report :: "frame \<Rightarrow> string list \<Rightarrow> error + (string \<times> real option) list" where
  "growth_report f [] = Inr []"
| "growth_report f (c # cs) =
     (case growth_line f c of
        Inl e \<Rightarrow> Inl e
      | Inr l \<Rightarrow> (case growth_report f cs of
                   Inl e \<Rightarrow> Inl e
                 | Inr ls \<Rightarrow> Inr (case l of None \<Rightarrow> ls | Some x \<Rightarrow> x # ls)))"

section \<open>The derived rate of the specification\<close>

text \<open>
  The specification's rate: numerator over denominator times 100 when the denominator is
  positive and the numerator is known, undefined otherwise.
\<close>

definition spec_rate :: "real option \<Rightarrow> real option \<Rightarrow> real option" where
  "spec_rate den num =
     (case den of None \<Rightarrow> None
      | Some c \<Rightarrow> (case num of None \<Rightarrow> None
                   | Some d \<Rightarrow> if 0 < c then Some (d / c * 100) else None))"

text \<open>The \<^verbatim>\<open>death_rate\<close> column of the cleaned frame, as the charts read it.\<close>

definition tracker_death_rate :: "string list \<Rightarrow> frame \<Rightarrow> error + series" where
  "tracker_death_rate cs df =
     (case tracker_clean cs df of Inl e \<Rightarrow> Inl e | Inr g \<Rightarrow> getcol g ''death_rate'')"

definition dashboard_death_rate :: "string list \<Rightarrow> int \<Rightarrow> int \<Rightarrow> frame \<Rightarrow> error + series" where
  "dashboard_death_rate cs start_date end_date df =
     (case dashboard_clean cs start_date end_date df of
        Inl e \<Rightarrow> Inl e
      | Inr g \<Rightarrow> getcol g ''death_rate'')"

section \<open>The data model's invariants\<close>

text \<open>
  A dataset is ordered by entity, then by date, with at most one observation per entity
  and date. What the transforms use of it: the rows of each entity are in strictly ascending
  date order; no two rows have the same entity and date.
\<close>

definition date_ordered :: "frame \<Rightarrow> bool" where
  "date_ordered f \<longleftrightarrow>
     list_all (\<lambda>e. sorted_wrt (<) (group_series (locations f) (dates f) e))
       (remdups (locations f))"

definition unique_entity_date :: "frame \<Rightarrow> bool" where
  "unique_entity_date f \<longleftrightarrow> distinct (zip (locations f) (dates f))"

section \<open>Example frames\<close>

definition series_example :: frame where
  "series_example =
     \<lparr>locations = [''A'', ''A'', ''A'', ''A''], dates = [1, 2, 3, 4],
      cols = [(''total_cases'', [Some 10, None, None, Some 40])]\<rparr>"

definition two_entities :: frame where
  "two_entities =
     \<lparr>locations = [''A'', ''B'', ''A'', ''B''], dates = [1, 1, 2, 2],
      cols = [(''total_cases'', [Some 10, Some 7, None, Some 8])]\<rparr>"

definition two_entities_alt :: frame where
  "two_entities_alt =
     \<lparr>locations = [''B'', ''A'', ''B'', ''A'', ''B''], dates = [1, 1, 2, 2, 3],
      cols = [(''total_cases'', [Some 99, Some 10, None, None, Some 5])]\<rparr>"

definition rate_example :: frame where
  "rate_example =
     \<lparr>locations = [''Kenya''], dates = [1],
      cols = [(''total_cases'', [Some 100]), (''total_deaths'', [Some 5]),
              (''people_vaccinated'', [Some 50]), (''population'', [Some 1000])]\<rparr>"

definition deaths_exceed_cases :: frame where
  "deaths_exceed_cases =
     \<lparr>locations = [''Kenya''], dates = [1],
      cols = [(''total_cases'', [Some 1]), (''total_deaths'', [Some 5]),
              (''people_vaccinated'', [Some 50]), (''population'', [Some 1000])]\<rparr>"

definition no_deaths_column :: frame where
  "no_deaths_column =
     \<lparr>locations = [''Kenya''], dates = [1],
      cols = [(''total_cases'', [Some 100]), (''new_cases'', [Some 3])]\<rparr>"

definition week_example :: frame where
  "week_example =
     \<lparr>locations = [''Kenya'', ''Kenya'', ''Kenya'', ''Kenya'', ''Kenya'', ''Kenya'', ''Kenya'', ''Kenya''],
      dates = [1, 2, 3, 4, 5, 6, 7, 8],
      cols = [(''new_cases'',
               [Some 3, Some 3, Some 3, Some 3, Some 3, Some 3, Some 3, Some 3])]\<rparr>"

definition snapshot_example :: frame where
  "snapshot_example =
     \<lparr>locations = [''B'', ''A'', ''B'', ''A''], dates = [2, 5, 1, 3],
      cols = [(''total_cases'', [Some 20, Some 50, Some 10, Some 30])]\<rparr>"

definition month_example :: frame where
  "month_example =
     \<lparr>locations = replicate 30 ''Kenya'' @ replicate 2 ''Brazil'',
      dates = map int [0..<30] @ [0, 1],
      cols = [(''total_cases'', map (\<lambda>i. Some (100 + real i)) [0..<30] @ [Some 7, Some 9]),
              (''total_deaths'', replicate 32 (Some 1))]\<rparr>"

section \<open>Grouped transforms and forward fill\<close>

lemma group_rows_snoc:
  "group_rows (ks @ [a]) k = group_rows ks k @ (if a = k then [length ks] else [])"
proof -
  have "filter (\<lambda>j. (ks @ [a]) ! j = k) [0..<length ks] = filter (\<lambda>j. ks ! j = k) [0..<length ks]"
    by (rule filter_cong) (auto simp: nth_append)
  then show ?thesis by (simp add: group_rows_def)
qed

lemma length_group_rows: "length (group_rows ks k) = length (filter (\<lambda>x. x = k) ks)"
  by (induction ks rule: rev_induct) (simp add: group_rows_def, simp add: group_rows_snoc)

lemma group_rows_mem: "j \<in> set (group_rows ks k) \<longleftrightarrow> j < length ks \<and> ks ! j = k"
  by (auto simp: group_rows_def)

lemma rank_in_group_snoc: "j < length ks \<Longrightarrow> rank_in_group (ks @ [a]) j = rank_in_group ks j"
  by (simp add: rank_in_group_def nth_append)

lemma rank_in_group_ranks:
  "map (rank_in_group ks) (group_rows ks k) = [0..<length (group_rows ks k)]"
proof (induction ks rule: rev_induct)
  case Nil
  show ?case by (simp add: group_rows_def)
next
  case (snoc a ks)
  have "map (rank_in_group (ks @ [a])) (group_rows ks k) = map (rank_in_group ks) (group_rows ks k)"
    by (rule map_cong) (auto simp: group_rows_mem rank_in_group_snoc)
  moreover have "a = k \<Longrightarrow> rank_in_group (ks @ [a]) (length ks) = length (group_rows ks k)"
    by (simp add: rank_in_group_def length_group_rows)
  ultimately show ?case using snoc by (simp add: group_rows_snoc)
qed

text \<open>The rows of a group carry, in order, the transform of the group's series.\<close>

lemma groupby_transform_group:
  assumes "length (fn (group_series ks xs k)) = length (group_series ks xs k)"
  shows "group_series ks (groupby_transform ks fn xs) k = fn (group_series ks xs k)"
proof -
  let ?g = "group_rows ks k" and ?F = "fn (group_series ks xs k)"
  have "group_series ks (groupby_transform ks fn xs) k = map (\<lambda>j. ?F ! rank_in_group ks j) ?g"
    unfolding group_series_def[of ks "groupby_transform ks fn xs"]
    by (rule map_cong) (auto simp: group_rows_mem groupby_transform_def)
  also have "\<dots> = map (\<lambda>p. ?F ! p) (map (rank_in_group ks) ?g)" by simp
  also have "\<dots> = map (\<lambda>p. ?F ! p) [0..<length ?F]"
    using assms by (simp only: rank_in_group_ranks) (simp add: group_series_def)
  also have "\<dots> = ?F" by (rule map_nth)
  finally show ?thesis .
qed

lemma length_ffill_from: "length (ffill_from a xs) = length xs"
  by (induction a xs rule: ffill_from.induct) auto

lemma length_ffill: "length (ffill xs) = length xs"
  by (simp add: ffill_def length_ffill_from)

lemma ffill_from_idem: "ffill_from a (ffill_from a xs) = ffill_from a xs"
proof (induction a xs rule: ffill_from.induct)
  case (2 prev xs)
  then show ?case by (cases prev) auto
qed auto

lemma ffill_idem: "ffill (ffill xs) = ffill xs"
  by (simp add: ffill_def ffill_from_idem)

lemma groupby_ffill_idem:
  "groupby_transform ks ffill (groupby_transform ks ffill xs) = groupby_transform ks ffill xs"
  unfolding groupby_transform_def[of ks ffill "groupby_transform ks ffill xs"]
  by (simp add: groupby_transform_group length_ffill ffill_idem) (simp add: groupby_transform_def)

lemma ffill_metric_locations: "locations (ffill_metric m f) = locations f"
  by (simp add: ffill_metric_def setcol_def split: option.splits)

lemma ffill_metric_dates: "dates (ffill_metric m f) = dates f"
  by (simp add: ffill_metric_def setcol_def split: option.splits)

lemma ffill_metric_map_of:
  "map_of (cols (ffill_metric m f)) c =
     map_option (\<lambda>s. if c = m then groupby_transform (locations f) ffill s else s)
       (map_of (cols f) c)"
proof (cases "c = m")
  case True
  then show ?thesis
    by (cases "map_of (cols f) m") (simp_all add: ffill_metric_def setcol_def update_conv')
next
  case False
  then show ?thesis
    by (cases "map_of (cols f) m"; cases "map_of (cols f) c")
      (simp_all add: ffill_metric_def setcol_def update_conv')
qed

lemma ffill_all_locations: "locations (ffill_all ms f) = locations f"
  unfolding ffill_all_def
  by (induction ms arbitrary: f) (simp_all add: ffill_metric_locations)

lemma ffill_all_dates: "dates (ffill_all ms f) = dates f"
  unfolding ffill_all_def
  by (induction ms arbitrary: f) (simp_all add: ffill_metric_dates)

lemma ffill_all_map_of:
  "map_of (cols (ffill_all ms f)) c =
     map_option (\<lambda>s. if c \<in> set ms then groupby_transform (locations f) ffill s else s)
       (map_of (cols f) c)"
  unfolding ffill_all_def
proof (induction ms arbitrary: f)
  case Nil
  show ?case by (simp add: option.map_ident)
next
  case (Cons m ms)
  show ?case
    by (cases "map_of (cols f) c")
      (simp_all add: Cons ffill_metric_locations ffill_metric_map_of groupby_ffill_idem)
qed

lemma ffill_metric_fixed:
  assumes "map_of (cols g) m = Some s" "groupby_transform (locations g) ffill s = s"
  shows "ffill_metric m g = g"
  using assms by (simp add: ffill_metric_def setcol_def update_triv)

lemma ffill_metric_ffill_all:
  assumes "m \<in> set ms"
  shows "ffill_metric m (ffill_all ms f) = ffill_all ms f"
proof (cases "map_of (cols (ffill_all ms f)) m")
  case None
  then show ?thesis by (simp add: ffill_metric_def)
next
  case (Some s)
  then obtain s0 where "s = groupby_transform (locations f) ffill s0"
    using assms by (auto simp: ffill_all_map_of)
  then have "groupby_transform (locations (ffill_all ms f)) ffill s = s"
    by (simp add: ffill_all_locations groupby_ffill_idem)
  with Some show ?thesis by (rule ffill_metric_fixed)
qed

lemma fold_ffill_metric_fixed:
  "set ms' \<subseteq> set ms \<Longrightarrow> fold ffill_metric ms' (ffill_all ms f) = ffill_all ms f"
  by (induction ms') (simp_all add: ffill_metric_ffill_all)

lemma ffill_from_nth_Some:
  "p < length xs \<Longrightarrow> xs ! p = Some v \<Longrightarrow> ffill_from a xs ! p = Some v"
proof (induction a xs arbitrary: p rule: ffill_from.induct)
  case (1 prev)
  then show ?case by simp
next
  case (2 prev xs)
  then show ?case by (cases p) auto
next
  case (3 prev w xs)
  then show ?case by (cases p) auto
qed

lemma ffill_from_nth_leading:
  "p < length xs \<Longrightarrow> \<forall>k\<le>p. xs ! k = None \<Longrightarrow> ffill_from a xs ! p = a"
proof (induction a xs arbitrary: p rule: ffill_from.induct)
  case (1 prev)
  then show ?case by simp
next
  case (2 prev xs)
  show ?case
  proof (cases p)
    case 0
    then show ?thesis by simp
  next
    case (Suc p')
    have "\<forall>k\<le>p'. xs ! k = None"
    proof (intro allI impI)
      fix k assume "k \<le> p'"
      then have "(None # xs) ! Suc k = None" using "2.prems"(2) Suc by blast
      then show "xs ! k = None" by simp
    qed
    then show ?thesis using 2 Suc by simp
  qed
next
  case (3 prev w xs)
  then have "(Some w # xs) ! 0 = None" by blast
  then show ?case by simp
qed

lemma ffill_from_nth_carry:
  "q < p \<Longrightarrow> p < length xs \<Longrightarrow> xs ! q = Some v \<Longrightarrow> \<forall>k. q < k \<and> k \<le> p \<longrightarrow> xs ! k = None
    \<Longrightarrow> ffill_from a xs ! p = Some v"
proof (induction xs arbitrary: a p q)
  case Nil
  then show ?case by simp
next
  case (Cons x xs)
  obtain p' where p: "p = Suc p'" using Cons.prems(1) by (cases p) auto
  show ?case
  proof (cases q)
    case 0
    then have x: "x = Some v" using Cons.prems(3) by simp
    have "\<forall>k\<le>p'. xs ! k = None"
    proof (intro allI impI)
      fix k assume "k \<le> p'"
      then have "(x # xs) ! Suc k = None" using Cons.prems(4)[rule_format, of "Suc k"] 0 p by simp
      then show "xs ! k = None" by simp
    qed
    then have "ffill_from (Some v) xs ! p' = Some v"
      using Cons.prems(2) p by (intro ffill_from_nth_leading) auto
    then show ?thesis by (simp add: x p)
  next
    case (Suc q')
    have rest: "\<forall>k. q' < k \<and> k \<le> p' \<longrightarrow> xs ! k = None"
    proof (intro allI impI)
      fix k assume "q' < k \<and> k \<le> p'"
      then have "(x # xs) ! Suc k = None" using Cons.prems(4)[rule_format, of "Suc k"] Suc p by simp
      then show "xs ! k = None" by simp
    qed
    have ih: "\<And>b. ffill_from b xs ! p' = Some v"
      using Cons.IH[of q' p'] Cons.prems rest Suc p by simp
    show ?thesis by (cases x) (simp_all add: p ih)
  qed
qed

lemma group_rows_sorted: "sorted_wrt (<) (group_rows ks k)"
  by (simp add: group_rows_def sorted_wrt_filter)

lemma group_rows_nth_rank:
  assumes "i < length ks"
  shows "rank_in_group ks i < length (group_rows ks (ks ! i))"
    and "group_rows ks (ks ! i) ! rank_in_group ks i = i"
proof -
  let ?g = "group_rows ks (ks ! i)"
  have "i \<in> set ?g" using assms by (simp add: group_rows_mem)
  then obtain p where p: "p < length ?g" "?g ! p = i" by (auto simp: in_set_conv_nth)
  have "map (rank_in_group ks) ?g ! p = [0..<length ?g] ! p"
    by (simp only: rank_in_group_ranks)
  then have "rank_in_group ks i = p" using p by simp
  then show "rank_in_group ks i < length ?g" and "?g ! rank_in_group ks i = i"
    using p by simp_all
qed

lemma group_rows_nth_mono:
  assumes "p < length (group_rows ks k)" "q < length (group_rows ks k)"
  shows "group_rows ks k ! q < group_rows ks k ! p \<longleftrightarrow> q < p"
proof -
  have lt: "\<And>a b. a < b \<Longrightarrow> b < length (group_rows ks k) \<Longrightarrow> group_rows ks k ! a < group_rows ks k ! b"
    using group_rows_sorted[of ks k] by (simp add: sorted_wrt_iff_nth_less)
  show ?thesis
  proof
    assume h: "group_rows ks k ! q < group_rows ks k ! p"
    show "q < p"
    proof (rule ccontr)
      assume "\<not> q < p"
      then have "p = q \<or> p < q" by auto
      then show False using h lt[of p q] assms by auto
    qed
  next
    assume "q < p" then show "group_rows ks k ! q < group_rows ks k ! p" using lt assms by simp
  qed
qed

lemma rank_in_group_mono:
  assumes "i < length ks" "j < length ks" "ks ! j = ks ! i"
  shows "rank_in_group ks j < rank_in_group ks i \<longleftrightarrow> j < i"
  using group_rows_nth_mono[of "rank_in_group ks i" ks "ks ! i" "rank_in_group ks j"]
    group_rows_nth_rank[OF assms(1)] group_rows_nth_rank[OF assms(2)] assms(3)
  by simp

lemma groupby_transform_nth:
  "i < length ks \<Longrightarrow>
     groupby_transform ks fn xs ! i = fn (group_series ks xs (ks ! i)) ! rank_in_group ks i"
  by (simp add: groupby_transform_def)

lemma group_series_nth:
  "p < length (group_rows ks k) \<Longrightarrow> group_series ks xs k ! p = xs ! (group_rows ks k ! p)"
  by (simp add: group_series_def)

lemma length_group_series: "length (group_series ks xs k) = length (group_rows ks k)"
  by (simp add: group_series_def)

lemma group_rows_nth_key:
  "p < length (group_rows ks k) \<Longrightarrow> group_rows ks k ! p < length ks \<and> ks ! (group_rows ks k ! p) = k"
  using group_rows_mem[of "group_rows ks k ! p" ks k] by simp

text \<open>Forward fill by groups, row by row, in the frame's row order.\<close>

lemma groupby_ffill_known:
  assumes "i < length ks" "xs ! i = Some v"
  shows "groupby_transform ks ffill xs ! i = Some v"
  using assms group_rows_nth_rank[OF assms(1)]
  by (simp add: groupby_transform_nth ffill_def ffill_from_nth_Some length_group_series
      group_series_nth)

lemma groupby_ffill_leading:
  assumes "i < length ks" "\<forall>j\<le>i. ks ! j = ks ! i \<longrightarrow> xs ! j = None"
  shows "groupby_transform ks ffill xs ! i = None"
proof -
  let ?g = "group_rows ks (ks ! i)" and ?p = "rank_in_group ks i"
  note r = group_rows_nth_rank[OF assms(1)]
  have "\<forall>k\<le>?p. group_series ks xs (ks ! i) ! k = None"
  proof (intro allI impI)
    fix k assume k: "k \<le> ?p"
    then have kl: "k < length ?g" using r(1) by simp
    have "?g ! k \<le> i"
      using group_rows_nth_mono[of ?p ks "ks ! i" k] r kl k by (cases "k = ?p") auto
    moreover have "ks ! (?g ! k) = ks ! i" using group_rows_nth_key[OF kl] by simp
    ultimately have "xs ! (?g ! k) = None" using assms(2) by blast
    then show "group_series ks xs (ks ! i) ! k = None" using kl by (simp add: group_series_nth)
  qed
  then have "ffill_from None (group_series ks xs (ks ! i)) ! ?p = None"
    using r(1) by (intro ffill_from_nth_leading) (simp_all add: length_group_series)
  then show ?thesis using assms(1) by (simp add: groupby_transform_nth ffill_def)
qed

lemma groupby_ffill_carry:
  assumes "i < length ks" "j < i" "ks ! j = ks ! i" "xs ! j = Some v"
    and "\<forall>k. j < k \<and> k \<le> i \<and> ks ! k = ks ! i \<longrightarrow> xs ! k = None"
  shows "groupby_transform ks ffill xs ! i = Some v"
proof -
  let ?g = "group_rows ks (ks ! i)" and ?p = "rank_in_group ks i" and ?q = "rank_in_group ks j"
  have jl: "j < length ks" using assms(1,2) by simp
  note r = group_rows_nth_rank[OF assms(1)]
  note s = group_rows_nth_rank[OF jl, unfolded assms(3)]
  have qp: "?q < ?p" using rank_in_group_mono[OF assms(1) jl assms(3)] assms(2) by simp
  have "\<forall>k. ?q < k \<and> k \<le> ?p \<longrightarrow> group_series ks xs (ks ! i) ! k = None"
  proof (intro allI impI)
    fix k assume k: "?q < k \<and> k \<le> ?p"
    then have kl: "k < length ?g" using r(1) by simp
    have "?g ! k \<le> i"
      using group_rows_nth_mono[of ?p ks "ks ! i" k] r kl k by (cases "k = ?p") auto
    moreover have "j < ?g ! k"
      using group_rows_nth_mono[of k ks "ks ! i" ?q] s kl k by simp
    moreover have "ks ! (?g ! k) = ks ! i" using group_rows_nth_key[OF kl] by simp
    ultimately have "xs ! (?g ! k) = None" using assms(5) by blast
    then show "group_series ks xs (ks ! i) ! k = None" using kl by (simp add: group_series_nth)
  qed
  moreover have "group_series ks xs (ks ! i) ! ?q = Some v"
    using s assms(4) by (simp add: group_series_nth)
  ultimately have "ffill_from None (group_series ks xs (ks ! i)) ! ?p = Some v"
    using qp r(1) by (intro ffill_from_nth_carry[of ?q]) (simp_all add: length_group_series)
  then show ?thesis using assms(1) by (simp add: groupby_transform_nth ffill_def)
qed

lemma date_ordered_lt:
  assumes "date_ordered f" "i < nrows f" "j < nrows f" "locations f ! j = locations f ! i"
  shows "dates f ! j < dates f ! i \<longleftrightarrow> j < i"
proof -
  let ?ks = "locations f"
  let ?D = "group_series ?ks (dates f) (?ks ! i)"
  have il: "i < length ?ks" and jl: "j < length ?ks" using assms by (simp_all add: nrows_def)
  have "?ks ! i \<in> set (remdups ?ks)" using il by simp
  then have sorted: "sorted_wrt (<) ?D"
    using assms(1) unfolding date_ordered_def list_all_iff by blast
  note r = group_rows_nth_rank[OF il]
  note s = group_rows_nth_rank[OF jl, unfolded assms(4)]
  have Di: "?D ! rank_in_group ?ks i = dates f ! i" using r by (simp add: group_series_nth)
  have Dj: "?D ! rank_in_group ?ks j = dates f ! j" using s by (simp add: group_series_nth)
  have up: "\<And>a b. a < b \<Longrightarrow> a < nrows f \<Longrightarrow> b < nrows f \<Longrightarrow> ?ks ! a = ?ks ! i \<Longrightarrow> ?ks ! b = ?ks ! i
      \<Longrightarrow> dates f ! a < dates f ! b"
  proof -
    fix a b assume ab: "a < b" "a < nrows f" "b < nrows f" "?ks ! a = ?ks ! i" "?ks ! b = ?ks ! i"
    have al: "a < length ?ks" and bl: "b < length ?ks" using ab by (simp_all add: nrows_def)
    note ra = group_rows_nth_rank[OF al, unfolded ab(4)]
    note rb = group_rows_nth_rank[OF bl, unfolded ab(5)]
    have "rank_in_group ?ks a < rank_in_group ?ks b"
      using rank_in_group_mono[OF bl al] ab by simp
    then have "?D ! rank_in_group ?ks a < ?D ! rank_in_group ?ks b"
      using sorted rb(1) by (simp add: sorted_wrt_iff_nth_less length_group_series)
    then show "dates f ! a < dates f ! b" using ra rb by (simp add: group_series_nth)
  qed
  show ?thesis
  proof
    assume h: "dates f ! j < dates f ! i"
    show "j < i"
    proof (rule ccontr)
      assume "\<not> j < i"
      then have "j = i \<or> i < j" by auto
      then show False using h up[of i j] assms by auto
    qed
  next
    assume "j < i" then show "dates f ! j < dates f ! i" using up[of j i] assms by simp
  qed
qed

section \<open>Forward fill of the key metrics\<close>

text \<open>
  Claim C7. Forward fill is idempotent: for every frame and every list of metrics, running
  the loop over the metrics on its own output gives that output again (the whole frame,
  column for column).
\<close>

theorem ffill_all_idempotent: "ffill_all ms (ffill_all ms f) = ffill_all ms f"
  using fold_ffill_metric_fixed[of ms ms f] by (simp add: ffill_all_def)

text \<open>
  Claim C2. Forward fill works on each entity alone: the filled series of entity \<open>a\<close> is
  the forward fill of \<open>a\<close>'s own series, whatever the rows of other entities hold and
  however they are interleaved with \<open>a\<close>'s rows. So two frames in which \<open>a\<close> has the same
  series of a metric give \<open>a\<close> the same filled series.
\<close>

theorem ffill_per_entity:
  assumes "map_of (cols f) m = Some s" and "map_of (cols f') m = Some s'"
    and "m \<in> set ms"
    and "group_series (locations f) s a = group_series (locations f') s' a"
  shows "\<exists>t t'. map_of (cols (ffill_all ms f)) m = Some t \<and>
           map_of (cols (ffill_all ms f')) m = Some t' \<and>
           group_series (locations f) t a = ffill (group_series (locations f) s a) \<and>
           group_series (locations f') t' a = group_series (locations f) t a"
  using assms by (simp add: ffill_all_map_of groupby_transform_group length_ffill)

theorem ffill_per_entity_witness:
  "\<exists>t t'. map_of (cols (ffill_all tracker_key_metrics two_entities)) ''total_cases'' = Some t \<and>
     map_of (cols (ffill_all tracker_key_metrics two_entities_alt)) ''total_cases'' = Some t' \<and>
     group_series (locations two_entities) t ''A'' = [Some 10, Some 10] \<and>
     group_series (locations two_entities_alt) t' ''A'' = [Some 10, Some 10]"
proof -
  have m: "''total_cases'' \<in> set tracker_key_metrics" by (simp add: tracker_key_metrics_def)
  have c: "map_of (cols two_entities) ''total_cases'' = Some [Some 10, Some 7, None, Some 8]"
    by (simp add: two_entities_def)
  have c': "map_of (cols two_entities_alt) ''total_cases'' = Some [Some 99, Some 10, None, None, Some 5]"
    by (simp add: two_entities_alt_def)
  have a: "group_series (locations two_entities) ([Some 10, Some 7, None, Some 8] :: series) ''A'' = [Some 10, None]"
    by (simp add: two_entities_def group_series_def group_rows_def)
  have a': "group_series (locations two_entities_alt) ([Some 99, Some 10, None, None, Some 5] :: series) ''A'' = [Some 10, None]"
    by (simp add: two_entities_alt_def group_series_def group_rows_def)
  have f: "ffill ([Some 10, None] :: series) = [Some 10, Some 10]" by (simp add: ffill_def)
  have "group_series (locations two_entities) ([Some 10, Some 7, None, Some 8] :: series) ''A'' =
      group_series (locations two_entities_alt) ([Some 99, Some 10, None, None, Some 5] :: series) ''A''"
    by (simp add: a a')
  from ffill_per_entity[OF c c' m this]
  obtain t t' where "map_of (cols (ffill_all tracker_key_metrics two_entities)) ''total_cases'' = Some t"
    and "map_of (cols (ffill_all tracker_key_metrics two_entities_alt)) ''total_cases'' = Some t'"
    and "group_series (locations two_entities) t ''A'' = [Some 10, Some 10]"
    and "group_series (locations two_entities_alt) t' ''A'' = group_series (locations two_entities) t ''A''"
    unfolding a f by (elim exE conjE)
  then show ?thesis by simp
qed

text \<open>
  Claim C1. For a frame whose rows are, for each entity, in ascending date order (the
  data model's order), and a metric \<open>m\<close> of the loop that is a column of the frame, the
  filled column has at row \<open>i\<close>: the row's own value when it is known; otherwise the value
  of the latest earlier-dated row \<open>j\<close> of the same entity at which the metric is known (no
  row of that entity dated after \<open>j\<close> and up to \<open>i\<close> knows it); and it stays missing when
  no row of the entity dated up to \<open>i\<close> knows it. The scan itself runs in the frame's row
  order, which is the date order by the hypothesis. The series 10, missing, missing, 40
  of one entity on four consecutive dates fills to 10, 10, 10, 40, in both scripts.
\<close>

theorem ffill_most_recent:
  assumes "date_ordered f" and "m \<in> set ms" and "map_of (cols f) m = Some xs"
    and "i < nrows f"
  shows "(\<exists>ys. map_of (cols (ffill_all ms f)) m = Some ys \<and> length ys = nrows f \<and>
      (\<forall>v. xs ! i = Some v \<longrightarrow> ys ! i = Some v) \<and>
      (\<forall>j v. j < nrows f \<and> locations f ! j = locations f ! i \<and> dates f ! j < dates f ! i \<and>
          xs ! j = Some v \<and>
          (\<forall>k<nrows f. locations f ! k = locations f ! i \<and> dates f ! j < dates f ! k \<and>
             dates f ! k \<le> dates f ! i \<longrightarrow> xs ! k = None)
        \<longrightarrow> ys ! i = Some v) \<and>
      ((\<forall>k<nrows f. locations f ! k = locations f ! i \<and> dates f ! k \<le> dates f ! i
          \<longrightarrow> xs ! k = None)
        \<longrightarrow> ys ! i = None)) \<and>
    (map_of (cols (ffill_all tracker_key_metrics series_example)) ''total_cases''
      = Some [Some 10, Some 10, Some 10, Some 40]) \<and>
    (map_of (cols (ffill_all dashboard_key_metrics series_example)) ''total_cases''
      = Some [Some 10, Some 10, Some 10, Some 40])"
proof -
  let ?ks = "locations f"
  let ?ys = "groupby_transform ?ks ffill xs"
  have il: "i < length ?ks" using assms(4) by (simp add: nrows_def)
  have col: "map_of (cols (ffill_all ms f)) m = Some ?ys"
    using assms(2,3) by (simp add: ffill_all_map_of)
  have len: "length ?ys = nrows f" by (simp add: groupby_transform_def nrows_def)
  have known: "\<forall>v. xs ! i = Some v \<longrightarrow> ?ys ! i = Some v"
    by (intro allI impI) (rule groupby_ffill_known[OF il])
  have carry: "\<forall>j v. j < nrows f \<and> ?ks ! j = ?ks ! i \<and> dates f ! j < dates f ! i \<and>
          xs ! j = Some v \<and>
          (\<forall>k<nrows f. ?ks ! k = ?ks ! i \<and> dates f ! j < dates f ! k \<and>
             dates f ! k \<le> dates f ! i \<longrightarrow> xs ! k = None)
        \<longrightarrow> ?ys ! i = Some v"
  proof (intro allI impI, elim conjE)
    fix j v
    assume j: "j < nrows f" "?ks ! j = ?ks ! i" "dates f ! j < dates f ! i" "xs ! j = Some v"
      and gap: "\<forall>k<nrows f. ?ks ! k = ?ks ! i \<and> dates f ! j < dates f ! k \<and>
             dates f ! k \<le> dates f ! i \<longrightarrow> xs ! k = None"
    have ji: "j < i" using date_ordered_lt[OF assms(1,4) j(1,2)] j(3) by simp
    have "\<forall>k. j < k \<and> k \<le> i \<and> ?ks ! k = ?ks ! i \<longrightarrow> xs ! k = None"
    proof (intro allI impI, elim conjE)
      fix k assume k: "j < k" "k \<le> i" "?ks ! k = ?ks ! i"
      have kn: "k < nrows f" using k(2) assms(4) by simp
      have "dates f ! k \<le> dates f ! i"
        using date_ordered_lt[OF assms(1,4) kn k(3)] k(2) by (cases "k = i") auto
      moreover have "dates f ! j < dates f ! k"
        using date_ordered_lt[OF assms(1) kn j(1)] j(2) k(1,3) by simp
      ultimately show "xs ! k = None" using gap[rule_format, of k] kn k(3) by simp
    qed
    then show "?ys ! i = Some v" by (rule groupby_ffill_carry[OF il ji j(2) j(4)])
  qed
  have leading: "(\<forall>k<nrows f. ?ks ! k = ?ks ! i \<and> dates f ! k \<le> dates f ! i \<longrightarrow> xs ! k = None)
        \<longrightarrow> ?ys ! i = None"
  proof
    assume none: "\<forall>k<nrows f. ?ks ! k = ?ks ! i \<and> dates f ! k \<le> dates f ! i \<longrightarrow> xs ! k = None"
    have "\<forall>j\<le>i. ?ks ! j = ?ks ! i \<longrightarrow> xs ! j = None"
    proof (intro allI impI)
      fix j assume j: "j \<le> i" "?ks ! j = ?ks ! i"
      have jn: "j < nrows f" using j(1) assms(4) by simp
      have "dates f ! j \<le> dates f ! i"
        using date_ordered_lt[OF assms(1,4) jn j(2)] j(1) by (cases "j = i") auto
      then show "xs ! j = None" using none[rule_format, of j] jn j(2) by simp
    qed
    then show "?ys ! i = None" by (rule groupby_ffill_leading[OF il])
  qed
  have part1: "\<exists>ys. map_of (cols (ffill_all ms f)) m = Some ys \<and> length ys = nrows f \<and>
      (\<forall>v. xs ! i = Some v \<longrightarrow> ys ! i = Some v) \<and>
      (\<forall>j v. j < nrows f \<and> locations f ! j = locations f ! i \<and> dates f ! j < dates f ! i \<and>
          xs ! j = Some v \<and>
          (\<forall>k<nrows f. locations f ! k = locations f ! i \<and> dates f ! j < dates f ! k \<and>
             dates f ! k \<le> dates f ! i \<longrightarrow> xs ! k = None)
        \<longrightarrow> ys ! i = Some v) \<and>
      ((\<forall>k<nrows f. locations f ! k = locations f ! i \<and> dates f ! k \<le> dates f ! i
          \<longrightarrow> xs ! k = None)
        \<longrightarrow> ys ! i = None)"
    by (rule exI[of _ ?ys], intro conjI, rule col, rule len, rule known, rule carry, rule leading)
  have part2: "map_of (cols (ffill_all tracker_key_metrics series_example)) ''total_cases''
      = Some [Some 10, Some 10, Some 10, Some 40]"
    by (simp add: ffill_all_map_of series_example_def tracker_key_metrics_def
      groupby_transform_def group_series_def group_rows_def rank_in_group_def ffill_def)
  have part3: "map_of (cols (ffill_all dashboard_key_metrics series_example)) ''total_cases''
      = Some [Some 10, Some 10, Some 10, Some 40]"
    by (simp add: ffill_all_map_of series_example_def dashboard_key_metrics_def
      groupby_transform_def group_series_def group_rows_def rank_in_group_def ffill_def)
  show ?thesis
    by (rule conjI[OF part1 conjI[OF part2 part3]])
qed

theorem ffill_most_recent_witness:
  "date_ordered two_entities \<and>
   (\<exists>ys. map_of (cols (ffill_all tracker_key_metrics two_entities)) ''total_cases'' = Some ys \<and>
      length ys = 4 \<and> ys ! 2 = Some 10)"
proof -
  let ?xs = "[Some 10, Some 7, None, Some 8] :: series"
  have d: "date_ordered two_entities"
    by (simp add: date_ordered_def two_entities_def group_series_def group_rows_def)
  have m: "''total_cases'' \<in> set tracker_key_metrics" by (simp add: tracker_key_metrics_def)
  have c: "map_of (cols two_entities) ''total_cases'' = Some ?xs"
    by (simp add: two_entities_def)
  have n: "2 < nrows two_entities" by (simp add: nrows_def two_entities_def)
  have four: "\<And>k::nat. k < 4 \<Longrightarrow> k = 0 \<or> k = 1 \<or> k = 2 \<or> k = 3" by arith
  have gap: "\<forall>k<nrows two_entities.
      locations two_entities ! k = locations two_entities ! 2 \<and>
      dates two_entities ! 0 < dates two_entities ! k \<and>
      dates two_entities ! k \<le> dates two_entities ! 2 \<longrightarrow> ?xs ! k = None"
  proof (intro allI impI)
    fix k assume "k < nrows two_entities"
      and h: "locations two_entities ! k = locations two_entities ! 2 \<and>
        dates two_entities ! 0 < dates two_entities ! k \<and>
        dates two_entities ! k \<le> dates two_entities ! 2"
    then have "k = 0 \<or> k = 1 \<or> k = 2 \<or> k = 3"
      using four[of k] by (simp add: nrows_def two_entities_def)
    then show "?xs ! k = None" using h by (auto simp: two_entities_def)
  qed
  from ffill_most_recent[OF d m c n, THEN conjunct1]
  obtain ys where ys: "map_of (cols (ffill_all tracker_key_metrics two_entities)) ''total_cases'' = Some ys"
    and len: "length ys = nrows two_entities"
    and carry: "\<forall>j v. j < nrows two_entities \<and>
          locations two_entities ! j = locations two_entities ! 2 \<and>
          dates two_entities ! j < dates two_entities ! 2 \<and> ?xs ! j = Some v \<and>
          (\<forall>k<nrows two_entities. locations two_entities ! k = locations two_entities ! 2 \<and>
             dates two_entities ! j < dates two_entities ! k \<and>
             dates two_entities ! k \<le> dates two_entities ! 2 \<longrightarrow> ?xs ! k = None)
        \<longrightarrow> ys ! 2 = Some v"
    by (elim exE conjE)
  have "ys ! 2 = Some 10"
    using carry[rule_format, of 0 10] gap by (simp add: nrows_def two_entities_def)
  moreover have "length ys = 4" using len by (simp add: nrows_def two_entities_def)
  ultimately show ?thesis using d ys by simp
qed

section \<open>Rectangular frames through the pipelines\<close>

lemma length_keep: "length msk = length xs \<Longrightarrow> length (keep msk xs) = length (filter (\<lambda>b. b) msk)"
  by (induction msk xs rule: list_induct2) (auto simp: keep_def)

lemma wf_col_length: "wf_frame f \<Longrightarrow> map_of (cols f) c = Some s \<Longrightarrow> length s = nrows f"
  by (auto simp: wf_frame_def list_all_iff dest!: map_of_SomeD)

lemma wf_select_rows:
  assumes "wf_frame f" "length msk = nrows f"
  shows "wf_frame (select_rows msk f)"
proof -
  have n: "nrows (select_rows msk f) = length (filter (\<lambda>b. b) msk)"
    using assms by (simp add: nrows_def select_rows_def length_keep)
  have d: "length (dates (select_rows msk f)) = length (filter (\<lambda>b. b) msk)"
    using assms by (simp add: select_rows_def length_keep wf_frame_def)
  have c: "list_all (\<lambda>p. length (snd p) = length (filter (\<lambda>b. b) msk)) (cols (select_rows msk f))"
    using assms by (auto simp: select_rows_def list_all_iff wf_frame_def length_keep)
  have "map fst (cols (select_rows msk f)) = map fst (cols f)"
    by (simp add: select_rows_def comp_def)
  then show ?thesis using assms(1) n d c by (simp add: wf_frame_def)
qed

lemma set_update_subset: "set (AList.update k v al) \<subseteq> insert (k, v) (set al)"
  by (induction al) auto

lemma wf_setcol:
  assumes "wf_frame f" "length s = nrows f"
  shows "wf_frame (setcol f c s)"
proof -
  have "\<forall>p\<in>set (AList.update c s (cols f)). length (snd p) = nrows f"
    using assms set_update_subset[of c s "cols f"] by (auto simp: wf_frame_def list_all_iff)
  then show ?thesis
    using assms(1) by (simp add: wf_frame_def setcol_def nrows_def list_all_iff distinct_update)
qed

lemma length_groupby_transform: "length (groupby_transform ks fn xs) = length ks"
  by (simp add: groupby_transform_def)

lemma wf_ffill_metric: "wf_frame f \<Longrightarrow> wf_frame (ffill_metric m f)"
  by (auto simp: ffill_metric_def wf_setcol length_groupby_transform nrows_def split: option.splits)

lemma wf_ffill_all: "wf_frame f \<Longrightarrow> wf_frame (ffill_all ms f)"
  unfolding ffill_all_def by (induction ms arbitrary: f) (simp_all add: wf_ffill_metric)

lemma getcol_setcol: "getcol (setcol f c s) c' = (if c' = c then Inr s else getcol f c')"
  by (simp add: getcol_def setcol_def update_conv')

lemma map_of_setcol: "map_of (cols (setcol f c s)) c' = (if c' = c then Some s else map_of (cols f) c')"
  by (simp add: setcol_def update_conv')

lemma setcol_frame: "locations (setcol f c s) = locations f" "dates (setcol f c s) = dates f"
  "nrows (setcol f c s) = nrows f"
  by (simp_all add: setcol_def nrows_def)

lemma getcol_Inr: "getcol f c = Inr s \<longleftrightarrow> map_of (cols f) c = Some s"
  by (simp add: getcol_def split: option.splits)

lemma length_rate_series: "length (rate_series den num) = min (length den) (length num)"
  by (simp add: rate_series_def where_nan_def and_mask_def gt0_def notna_def mul_scalar_def
      div_series_def)

lemma rate_series_nth:
  assumes "i < length den" "i < length num"
  shows "rate_series den num ! i =
     (case den ! i of None \<Rightarrow> None
      | Some c \<Rightarrow> (case num ! i of None \<Rightarrow> None
                   | Some d \<Rightarrow> if 0 < c then Some (d / c * 100) else None))"
  using assms
  by (simp add: rate_series_def where_nan_def and_mask_def gt0_def notna_def mul_scalar_def
      div_series_def fdiv_def split: option.splits)

lemma add_rate_Inr:
  "add_rate out num den f = Inr g \<longleftrightarrow>
     (\<exists>d n. getcol f den = Inr d \<and> getcol f num = Inr n \<and> g = setcol f out (rate_series d n))"
  by (auto simp: add_rate_def split: sum.splits)

lemma wf_add_rate:
  assumes "wf_frame f" "add_rate out num den f = Inr g"
  shows "wf_frame g"
proof -
  obtain d n where dn: "getcol f den = Inr d" "getcol f num = Inr n"
    "g = setcol f out (rate_series d n)"
    using assms(2) by (auto simp: add_rate_Inr)
  have "length d = nrows f" "length n = nrows f"
    using dn assms(1) by (simp_all add: getcol_Inr wf_col_length)
  then show ?thesis using dn(3) assms(1) by (simp add: wf_setcol length_rate_series)
qed

lemma length_isin: "length (isin xs vs) = length xs"
  by (simp add: isin_def)

lemma wf_tracker_filter: "wf_frame df \<Longrightarrow> wf_frame (tracker_filter cs df)"
  by (simp add: tracker_filter_def wf_select_rows length_isin nrows_def)

lemma wf_dashboard_filter: "wf_frame df \<Longrightarrow> wf_frame (dashboard_filter cs sd ed df)"
  unfolding dashboard_filter_def
  by (rule wf_select_rows) (simp_all add: and_mask_def length_isin nrows_def wf_frame_def)

section \<open>Derived rates\<close>

text \<open>What a rate column holds, row by row, in terms of the columns it is computed from.\<close>

lemma add_rate_spec:
  assumes "wf_frame f" "add_rate out num den f = Inr g" "out \<noteq> num" "out \<noteq> den"
  shows "\<exists>d n r. getcol f den = Inr d \<and> getcol f num = Inr n \<and>
      getcol g den = Inr d \<and> getcol g num = Inr n \<and> getcol g out = Inr r \<and>
      length r = nrows g \<and> (\<forall>i<nrows g. r ! i = spec_rate (d ! i) (n ! i))"
proof -
  obtain d n where dn: "getcol f den = Inr d" "getcol f num = Inr n"
    "g = setcol f out (rate_series d n)"
    using assms(2) by (auto simp: add_rate_Inr)
  have len: "length d = nrows f" "length n = nrows f"
    using dn assms(1) by (simp_all add: getcol_Inr wf_col_length)
  have "getcol g den = Inr d" "getcol g num = Inr n" "getcol g out = Inr (rate_series d n)"
    using dn assms(3,4) by (simp_all add: getcol_setcol)
  moreover have "length (rate_series d n) = nrows g"
    using len dn(3) by (simp add: length_rate_series setcol_frame)
  moreover have "\<forall>i<nrows g. rate_series d n ! i = spec_rate (d ! i) (n ! i)"
    using len dn(3) by (simp add: rate_series_nth setcol_frame spec_rate_def)
  ultimately show ?thesis using dn(1,2) by (intro exI conjI)
qed

lemma tracker_clean_death_rate:
  assumes "wf_frame df" "tracker_clean cs df = Inr g"
  shows "\<exists>tc td dr.
      getcol (ffill_all tracker_key_metrics (tracker_filter cs df)) ''total_cases'' = Inr tc \<and>
      getcol (ffill_all tracker_key_metrics (tracker_filter cs df)) ''total_deaths'' = Inr td \<and>
      getcol g ''total_cases'' = Inr tc \<and> getcol g ''total_deaths'' = Inr td \<and>
      getcol g ''death_rate'' = Inr dr \<and> length dr = nrows g \<and>
      (\<forall>i<nrows g. dr ! i = spec_rate (tc ! i) (td ! i))"
proof -
  let ?F = "ffill_all tracker_key_metrics (tracker_filter cs df)"
  have wf: "wf_frame ?F" using assms(1) by (simp add: wf_ffill_all wf_tracker_filter)
  have "add_rate ''death_rate'' ''total_deaths'' ''total_cases'' ?F = Inr g"
    using assms(2) by (simp add: tracker_clean_def add_death_rate_def)
  from add_rate_spec[OF wf this] show ?thesis by simp
qed

lemma dashboard_clean_death_rate:
  assumes "wf_frame df" "dashboard_clean cs sd ed df = Inr g"
  shows "\<exists>tc td dr.
      getcol (ffill_all dashboard_key_metrics (dashboard_filter cs sd ed df)) ''total_cases'' = Inr tc \<and>
      getcol (ffill_all dashboard_key_metrics (dashboard_filter cs sd ed df)) ''total_deaths'' = Inr td \<and>
      getcol g ''total_cases'' = Inr tc \<and> getcol g ''total_deaths'' = Inr td \<and>
      getcol g ''death_rate'' = Inr dr \<and> length dr = nrows g \<and>
      (\<forall>i<nrows g. dr ! i = spec_rate (tc ! i) (td ! i))"
proof -
  let ?F = "ffill_all dashboard_key_metrics (dashboard_filter cs sd ed df)"
  have wf: "wf_frame ?F" using assms(1) by (simp add: wf_ffill_all wf_dashboard_filter)
  obtain g1 where g1: "add_rate ''death_rate'' ''total_deaths'' ''total_cases'' ?F = Inr g1"
    and g: "add_rate ''vaccination_rate'' ''people_vaccinated'' ''population'' g1 = Inr g"
    using assms(2)
    by (auto simp: dashboard_clean_def add_death_rate_def add_vaccination_rate_def split: sum.splits)
  obtain s where s: "g = setcol g1 ''vaccination_rate'' s"
    using g by (auto simp: add_rate_Inr)
  from add_rate_spec[OF wf g1]
  obtain tc td dr where r: "getcol ?F ''total_cases'' = Inr tc" "getcol ?F ''total_deaths'' = Inr td"
    "getcol g1 ''total_cases'' = Inr tc" "getcol g1 ''total_deaths'' = Inr td"
    "getcol g1 ''death_rate'' = Inr dr" "length dr = nrows g1"
    "\<forall>i<nrows g1. dr ! i = spec_rate (tc ! i) (td ! i)"
    by auto
  have "getcol g ''total_cases'' = Inr tc" "getcol g ''total_deaths'' = Inr td"
    "getcol g ''death_rate'' = Inr dr" "nrows g = nrows g1"
    using r s by (simp_all add: getcol_setcol setcol_frame)
  then show ?thesis using r by (intro exI[of _ tc] exI[of _ td] exI[of _ dr]) simp
qed

text \<open>
  Claim C3. In the frame a cleaning pipeline returns, the \<^verbatim>\<open>death_rate\<close> of every row is
  cumulative deaths divided by cumulative cases times 100 exactly when the row's cumulative
  cases are positive and its cumulative deaths are known, and undefined otherwise
  (\<open>spec_rate\<close>); cases and deaths are the forward-filled columns. Cases 100 with deaths 5
  give the rate 5.
\<close>

theorem death_rate_rows:
  assumes "wf_frame df"
  shows "(tracker_clean cs df = Inr g \<longrightarrow>
      (\<exists>tc td dr.
        getcol (ffill_all tracker_key_metrics (tracker_filter cs df)) ''total_cases'' = Inr tc \<and>
        getcol (ffill_all tracker_key_metrics (tracker_filter cs df)) ''total_deaths'' = Inr td \<and>
        getcol g ''total_cases'' = Inr tc \<and> getcol g ''total_deaths'' = Inr td \<and>
        getcol g ''death_rate'' = Inr dr \<and> length dr = nrows g \<and>
        (\<forall>i<nrows g. dr ! i = spec_rate (tc ! i) (td ! i)))) \<and>
    (dashboard_clean cs sd ed df = Inr h \<longrightarrow>
      (\<exists>tc td dr.
        getcol (ffill_all dashboard_key_metrics (dashboard_filter cs sd ed df)) ''total_cases'' = Inr tc \<and>
        getcol (ffill_all dashboard_key_metrics (dashboard_filter cs sd ed df)) ''total_deaths'' = Inr td \<and>
        getcol h ''total_cases'' = Inr tc \<and> getcol h ''total_deaths'' = Inr td \<and>
        getcol h ''death_rate'' = Inr dr \<and> length dr = nrows h \<and>
        (\<forall>i<nrows h. dr ! i = spec_rate (tc ! i) (td ! i)))) \<and>
    (tracker_death_rate countries rate_example = Inr [Some 5]) \<and>
    (dashboard_death_rate countries 0 10 rate_example = Inr [Some 5])"
proof -
  have part1: "tracker_clean cs df = Inr g \<longrightarrow>
      (\<exists>tc td dr.
        getcol (ffill_all tracker_key_metrics (tracker_filter cs df)) ''total_cases'' = Inr tc \<and>
        getcol (ffill_all tracker_key_metrics (tracker_filter cs df)) ''total_deaths'' = Inr td \<and>
        getcol g ''total_cases'' = Inr tc \<and> getcol g ''total_deaths'' = Inr td \<and>
        getcol g ''death_rate'' = Inr dr \<and> length dr = nrows g \<and>
        (\<forall>i<nrows g. dr ! i = spec_rate (tc ! i) (td ! i)))"
    using tracker_clean_death_rate[OF assms] by (intro impI)
  have part2: "dashboard_clean cs sd ed df = Inr h \<longrightarrow>
      (\<exists>tc td dr.
        getcol (ffill_all dashboard_key_metrics (dashboard_filter cs sd ed df)) ''total_cases'' = Inr tc \<and>
        getcol (ffill_all dashboard_key_metrics (dashboard_filter cs sd ed df)) ''total_deaths'' = Inr td \<and>
        getcol h ''total_cases'' = Inr tc \<and> getcol h ''total_deaths'' = Inr td \<and>
        getcol h ''death_rate'' = Inr dr \<and> length dr = nrows h \<and>
        (\<forall>i<nrows h. dr ! i = spec_rate (tc ! i) (td ! i)))"
    using dashboard_clean_death_rate[OF assms] by (intro impI)
  have part3: "tracker_death_rate countries rate_example = Inr [Some 5]"
    by code_simp
  have part4: "dashboard_death_rate countries 0 10 rate_example = Inr [Some 5]"
    by code_simp
  show ?thesis
    by (rule conjI[OF part1 conjI[OF part2 conjI[OF part3 part4]]])
qed

theorem death_rate_rows_witness:
  "wf_frame rate_example \<and>
   (\<exists>g tc td dr. tracker_clean countries rate_example = Inr g \<and>
      getcol g ''total_cases'' = Inr tc \<and> getcol g ''total_deaths'' = Inr td \<and>
      getcol g ''death_rate'' = Inr dr \<and> length dr = nrows g \<and>
      (\<forall>i<nrows g. dr ! i = spec_rate (tc ! i) (td ! i)))"
proof -
  have wf: "wf_frame rate_example" by (simp add: wf_frame_def rate_example_def nrows_def)
  have "tracker_death_rate countries rate_example = Inr [Some 5]" by code_simp
  then obtain g where g: "tracker_clean countries rate_example = Inr g"
    by (auto simp: tracker_death_rate_def split: sum.splits)
  from death_rate_rows[OF wf, where cs=countries and g=g, THEN conjunct1] g
  obtain tc td dr where "getcol g ''total_cases'' = Inr tc" "getcol g ''total_deaths'' = Inr td"
    "getcol g ''death_rate'' = Inr dr" "length dr = nrows g"
    "\<forall>i<nrows g. dr ! i = spec_rate (tc ! i) (td ! i)"
    by (elim impE exE conjE)
  then show ?thesis using wf g by (intro conjI exI[of _ g] exI[of _ tc] exI[of _ td] exI[of _ dr])
qed

lemma spec_rate_Some:
  "spec_rate a b = Some v \<Longrightarrow> \<exists>c d. a = Some c \<and> b = Some d \<and> 0 < c \<and> v = d / c * 100"
  by (auto simp: spec_rate_def split: option.splits if_splits)

lemma ratio_bounds:
  fixes c d :: real
  assumes "0 < c" "0 \<le> d" "d \<le> c"
  shows "0 \<le> d / c * 100" "d / c * 100 \<le> 100"
proof -
  have "0 \<le> d / c" using assms by simp
  then show "0 \<le> d / c * 100" by (rule mult_nonneg_nonneg) simp
  have "d / c \<le> 1" using assms by simp
  then have "d / c * 100 \<le> 1 * 100" by (rule mult_right_mono) simp
  then show "d / c * 100 \<le> 100" by simp
qed

lemma spec_rate_zero: "spec_rate (Some 0) b = None"
  by (simp add: spec_rate_def split: option.splits)

lemma rate_rows_bounds:
  assumes "\<forall>i<n. dr ! i = spec_rate (tc ! i) (td ! i)"
  shows "(\<forall>i<n. \<forall>v. dr ! i = Some v \<longrightarrow>
           (\<exists>c d. tc ! i = Some c \<and> td ! i = Some d \<and> 0 < c \<and> v = d / c * 100 \<and>
              (0 \<le> d \<and> d \<le> c \<longrightarrow> 0 \<le> v \<and> v \<le> 100))) \<and>
         (\<forall>i<n. tc ! i = Some 0 \<longrightarrow> dr ! i = None)"
proof (intro conjI allI impI)
  fix i v assume i: "i < n" and v: "dr ! i = Some v"
  then have "spec_rate (tc ! i) (td ! i) = Some v" using assms by simp
  then obtain c d where cd: "tc ! i = Some c" "td ! i = Some d" "0 < c" "v = d / c * 100"
    using spec_rate_Some by blast
  have "0 \<le> d \<and> d \<le> c \<longrightarrow> 0 \<le> v \<and> v \<le> 100"
    using ratio_bounds[OF cd(3)] cd(4) by simp
  then show "\<exists>c d. tc ! i = Some c \<and> td ! i = Some d \<and> 0 < c \<and> v = d / c * 100 \<and>
              (0 \<le> d \<and> d \<le> c \<longrightarrow> 0 \<le> v \<and> v \<le> 100)"
    using cd by (intro exI[of _ c] exI[of _ d]) simp
next
  fix i assume "i < n" "tc ! i = Some 0"
  then show "dr ! i = None" using assms by (simp add: spec_rate_zero)
qed

text \<open>
  Claim C4, as stated, fails: nothing in the scripts bounds the rate. A row with 1 case and
  5 deaths gets the rate 500, in both scripts.
\<close>

theorem death_rate_above_100:
  "tracker_death_rate countries deaths_exceed_cases = Inr [Some 500] \<and>
   dashboard_death_rate countries 0 10 deaths_exceed_cases = Inr [Some 500] \<and>
   (100 :: real) < 500"
  by code_simp

text \<open>
  Claim C4, amended. A defined \<^verbatim>\<open>death_rate\<close> is deaths / cases * 100 of a row with
  positive cases and known deaths, and it lies in [0, 100] whenever that row's deaths are
  between 0 and its cases; the rate is undefined on every row whose cases are 0.
\<close>

theorem death_rate_bounds:
  assumes "wf_frame df"
  shows "(tracker_clean cs df = Inr g \<longrightarrow>
      (\<exists>tc td dr.
        getcol g ''total_cases'' = Inr tc \<and> getcol g ''total_deaths'' = Inr td \<and>
        getcol g ''death_rate'' = Inr dr \<and>
        (\<forall>i<nrows g. \<forall>v. dr ! i = Some v \<longrightarrow>
           (\<exists>c d. tc ! i = Some c \<and> td ! i = Some d \<and> 0 < c \<and> v = d / c * 100 \<and>
              (0 \<le> d \<and> d \<le> c \<longrightarrow> 0 \<le> v \<and> v \<le> 100))) \<and>
        (\<forall>i<nrows g. tc ! i = Some 0 \<longrightarrow> dr ! i = None))) \<and>
    (dashboard_clean cs sd ed df = Inr h \<longrightarrow>
      (\<exists>tc td dr.
        getcol h ''total_cases'' = Inr tc \<and> getcol h ''total_deaths'' = Inr td \<and>
        getcol h ''death_rate'' = Inr dr \<and>
        (\<forall>i<nrows h. \<forall>v. dr ! i = Some v \<longrightarrow>
           (\<exists>c d. tc ! i = Some c \<and> td ! i = Some d \<and> 0 < c \<and> v = d / c * 100 \<and>
              (0 \<le> d \<and> d \<le> c \<longrightarrow> 0 \<le> v \<and> v \<le> 100))) \<and>
        (\<forall>i<nrows h. tc ! i = Some 0 \<longrightarrow> dr ! i = None)))"
proof -
  have part1: "tracker_clean cs df = Inr g \<longrightarrow>
      (\<exists>tc td dr.
        getcol g ''total_cases'' = Inr tc \<and> getcol g ''total_deaths'' = Inr td \<and>
        getcol g ''death_rate'' = Inr dr \<and>
        (\<forall>i<nrows g. \<forall>v. dr ! i = Some v \<longrightarrow>
           (\<exists>c d. tc ! i = Some c \<and> td ! i = Some d \<and> 0 < c \<and> v = d / c * 100 \<and>
              (0 \<le> d \<and> d \<le> c \<longrightarrow> 0 \<le> v \<and> v \<le> 100))) \<and>
        (\<forall>i<nrows g. tc ! i = Some 0 \<longrightarrow> dr ! i = None))"
  proof
    assume "tracker_clean cs df = Inr g"
    from tracker_clean_death_rate[OF assms this]
    obtain tc td dr where r: "getcol g ''total_cases'' = Inr tc" "getcol g ''total_deaths'' = Inr td"
      "getcol g ''death_rate'' = Inr dr" "\<forall>i<nrows g. dr ! i = spec_rate (tc ! i) (td ! i)"
      by (elim exE conjE)
    show "\<exists>tc td dr.
        getcol g ''total_cases'' = Inr tc \<and> getcol g ''total_deaths'' = Inr td \<and>
        getcol g ''death_rate'' = Inr dr \<and>
        (\<forall>i<nrows g. \<forall>v. dr ! i = Some v \<longrightarrow>
           (\<exists>c d. tc ! i = Some c \<and> td ! i = Some d \<and> 0 < c \<and> v = d / c * 100 \<and>
              (0 \<le> d \<and> d \<le> c \<longrightarrow> 0 \<le> v \<and> v \<le> 100))) \<and>
        (\<forall>i<nrows g. tc ! i = Some 0 \<longrightarrow> dr ! i = None)"
      using r(1,2,3) rate_rows_bounds[OF r(4)]
      by (intro exI[of _ tc] exI[of _ td] exI[of _ dr]) (simp only: simp_thms)
  qed
  have part2: "dashboard_clean cs sd ed df = Inr h \<longrightarrow>
      (\<exists>tc td dr.
        getcol h ''total_cases'' = Inr tc \<and> getcol h ''total_deaths'' = Inr td \<and>
        getcol h ''death_rate'' = Inr dr \<and>
        (\<forall>i<nrows h. \<forall>v. dr ! i = Some v \<longrightarrow>
           (\<exists>c d. tc ! i = Some c \<and> td ! i = Some d \<and> 0 < c \<and> v = d / c * 100 \<and>
              (0 \<le> d \<and> d \<le> c \<longrightarrow> 0 \<le> v \<and> v \<le> 100))) \<and>
        (\<forall>i<nrows h. tc ! i = Some 0 \<longrightarrow> dr ! i = None))"
  proof
    assume "dashboard_clean cs sd ed df = Inr h"
    from dashboard_clean_death_rate[OF assms this]
    obtain tc td dr where r: "getcol h ''total_cases'' = Inr tc" "getcol h ''total_deaths'' = Inr td"
      "getcol h ''death_rate'' = Inr dr" "\<forall>i<nrows h. dr ! i = spec_rate (tc ! i) (td ! i)"
      by (elim exE conjE)
    show "\<exists>tc td dr.
        getcol h ''total_cases'' = Inr tc \<and> getcol h ''total_deaths'' = Inr td \<and>
        getcol h ''death_rate'' = Inr dr \<and>
        (\<forall>i<nrows h. \<forall>v. dr ! i = Some v \<longrightarrow>
           (\<exists>c d. tc ! i = Some c \<and> td ! i = Some d \<and> 0 < c \<and> v = d / c * 100 \<and>
              (0 \<le> d \<and> d \<le> c \<longrightarrow> 0 \<le> v \<and> v \<le> 100))) \<and>
        (\<forall>i<nrows h. tc ! i = Some 0 \<longrightarrow> dr ! i = None)"
      using r(1,2,3) rate_rows_bounds[OF r(4)]
      by (intro exI[of _ tc] exI[of _ td] exI[of _ dr]) (simp only: simp_thms)
  qed
  show ?thesis
    by (rule conjI[OF part1 part2])
qed

theorem death_rate_bounds_witness:
  "wf_frame rate_example \<and>
   (\<exists>g tc td dr. tracker_clean countries rate_example = Inr g \<and>
      getcol g ''total_cases'' = Inr tc \<and> getcol g ''total_deaths'' = Inr td \<and>
      getcol g ''death_rate'' = Inr dr \<and>
      (\<forall>i<nrows g. \<forall>v. dr ! i = Some v \<longrightarrow>
           (\<exists>c d. tc ! i = Some c \<and> td ! i = Some d \<and> 0 < c \<and> v = d / c * 100 \<and>
              (0 \<le> d \<and> d \<le> c \<longrightarrow> 0 \<le> v \<and> v \<le> 100))) \<and>
      (\<forall>i<nrows g. tc ! i = Some 0 \<longrightarrow> dr ! i = None))"
proof -
  have wf: "wf_frame rate_example" by (simp add: wf_frame_def rate_example_def nrows_def)
  have "tracker_death_rate countries rate_example = Inr [Some 5]" by code_simp
  then obtain g where g: "tracker_clean countries rate_example = Inr g"
    by (auto simp: tracker_death_rate_def split: sum.splits)
  from death_rate_bounds[OF wf, where cs=countries and g=g, THEN conjunct1] g
  obtain tc td dr where "getcol g ''total_cases'' = Inr tc" "getcol g ''total_deaths'' = Inr td"
    "getcol g ''death_rate'' = Inr dr"
    "\<forall>i<nrows g. \<forall>v. dr ! i = Some v \<longrightarrow>
           (\<exists>c d. tc ! i = Some c \<and> td ! i = Some d \<and> 0 < c \<and> v = d / c * 100 \<and>
              (0 \<le> d \<and> d \<le> c \<longrightarrow> 0 \<le> v \<and> v \<le> 100))"
    "\<forall>i<nrows g. tc ! i = Some 0 \<longrightarrow> dr ! i = None"
    by (elim impE exE conjE)
  then show ?thesis using wf g by (intro conjI exI[of _ g] exI[of _ tc] exI[of _ td] exI[of _ dr])
qed

section \<open>The frame of the cleaning pipelines\<close>

lemma map_of_select_rows:
  "map_of (cols (select_rows msk f)) c = map_option (keep msk) (map_of (cols f) c)"
proof -
  have "map_of (map (\<lambda>p. (fst p, keep msk (snd p))) al) c = map_option (keep msk) (map_of al c)"
    for al :: "(string \<times> series) list"
    by (induction al) auto
  then show ?thesis by (simp add: select_rows_def)
qed

lemma add_rate_frame:
  assumes "add_rate out num den f = Inr g"
  shows "locations g = locations f" "dates g = dates f" "nrows g = nrows f"
    "\<And>c. c \<noteq> out \<Longrightarrow> map_of (cols g) c = map_of (cols f) c"
    "map_of (cols g) out \<noteq> None"
  using assms by (auto simp: add_rate_Inr setcol_frame map_of_setcol)

lemma ffill_all_nrows: "nrows (ffill_all ms f) = nrows f"
  by (simp add: nrows_def ffill_all_locations)

lemma ffill_all_other: "c \<notin> set ms \<Longrightarrow> map_of (cols (ffill_all ms f)) c = map_of (cols f) c"
  by (simp add: ffill_all_map_of option.map_ident)

lemma ffill_all_dom: "map_of (cols (ffill_all ms f)) c = None \<longleftrightarrow> map_of (cols f) c = None"
  by (simp add: ffill_all_map_of)

text \<open>
  Claim C9. On the filtered subset, forward fill and the rate computations keep the frame:
  the result has the rows of the filtered frame (same number, same entity and date at every
  row, every column of full length), every column other than the key metrics and the added
  \<^verbatim>\<open>death_rate\<close> (and \<^verbatim>\<open>vaccination_rate\<close> in the dashboard) is unchanged, and no column
  is dropped.
\<close>

theorem clean_preserves_frame:
  assumes "wf_frame df"
  shows "(tracker_clean cs df = Inr g \<longrightarrow>
      wf_frame g \<and> nrows g = nrows (tracker_filter cs df) \<and>
      locations g = locations (tracker_filter cs df) \<and> dates g = dates (tracker_filter cs df) \<and>
      (\<forall>c. c \<notin> set tracker_key_metrics \<and> c \<noteq> ''death_rate'' \<longrightarrow>
         map_of (cols g) c = map_of (cols (tracker_filter cs df)) c) \<and>
      (\<forall>c. map_of (cols (tracker_filter cs df)) c \<noteq> None \<longrightarrow> map_of (cols g) c \<noteq> None)) \<and>
    (dashboard_clean cs sd ed df = Inr h \<longrightarrow>
      wf_frame h \<and> nrows h = nrows (dashboard_filter cs sd ed df) \<and>
      locations h = locations (dashboard_filter cs sd ed df) \<and>
      dates h = dates (dashboard_filter cs sd ed df) \<and>
      (\<forall>c. c \<notin> set dashboard_key_metrics \<and> c \<noteq> ''death_rate'' \<and> c \<noteq> ''vaccination_rate'' \<longrightarrow>
         map_of (cols h) c = map_of (cols (dashboard_filter cs sd ed df)) c) \<and>
      (\<forall>c. map_of (cols (dashboard_filter cs sd ed df)) c \<noteq> None \<longrightarrow> map_of (cols h) c \<noteq> None))"
proof -
  have part1: "tracker_clean cs df = Inr g \<longrightarrow>
      wf_frame g \<and> nrows g = nrows (tracker_filter cs df) \<and>
      locations g = locations (tracker_filter cs df) \<and> dates g = dates (tracker_filter cs df) \<and>
      (\<forall>c. c \<notin> set tracker_key_metrics \<and> c \<noteq> ''death_rate'' \<longrightarrow>
         map_of (cols g) c = map_of (cols (tracker_filter cs df)) c) \<and>
      (\<forall>c. map_of (cols (tracker_filter cs df)) c \<noteq> None \<longrightarrow> map_of (cols g) c \<noteq> None)"
  proof
    let ?S = "tracker_filter cs df"
    let ?F = "ffill_all tracker_key_metrics ?S"
    assume "tracker_clean cs df = Inr g"
    then have g: "add_rate ''death_rate'' ''total_deaths'' ''total_cases'' ?F = Inr g"
      by (simp add: tracker_clean_def add_death_rate_def)
    have wf: "wf_frame ?F" using assms by (simp add: wf_ffill_all wf_tracker_filter)
    note fr = add_rate_frame[OF g]
    have 1: "wf_frame g" using wf g by (rule wf_add_rate)
    have 2: "nrows g = nrows ?S" using fr(3) by (simp add: ffill_all_nrows)
    have 3: "locations g = locations ?S" using fr(1) by (simp add: ffill_all_locations)
    have 4: "dates g = dates ?S" using fr(2) by (simp add: ffill_all_dates)
    have 5: "\<forall>c. c \<notin> set tracker_key_metrics \<and> c \<noteq> ''death_rate'' \<longrightarrow>
         map_of (cols g) c = map_of (cols ?S) c"
      using fr(4) by (simp add: ffill_all_other)
    have 6: "\<forall>c. map_of (cols ?S) c \<noteq> None \<longrightarrow> map_of (cols g) c \<noteq> None"
    proof (intro allI impI)
      fix c assume "map_of (cols ?S) c \<noteq> None"
      then have "map_of (cols ?F) c \<noteq> None" by (simp add: ffill_all_dom)
      then show "map_of (cols g) c \<noteq> None" using fr(4)[of c] fr(5) by (cases "c = ''death_rate''") simp_all
    qed
    show "wf_frame g \<and> nrows g = nrows ?S \<and> locations g = locations ?S \<and> dates g = dates ?S \<and>
      (\<forall>c. c \<notin> set tracker_key_metrics \<and> c \<noteq> ''death_rate'' \<longrightarrow>
         map_of (cols g) c = map_of (cols ?S) c) \<and>
      (\<forall>c. map_of (cols ?S) c \<noteq> None \<longrightarrow> map_of (cols g) c \<noteq> None)"
      by (intro conjI, rule 1, rule 2, rule 3, rule 4, rule 5, rule 6)
  qed
  have part2: "dashboard_clean cs sd ed df = Inr h \<longrightarrow>
      wf_frame h \<and> nrows h = nrows (dashboard_filter cs sd ed df) \<and>
      locations h = locations (dashboard_filter cs sd ed df) \<and>
      dates h = dates (dashboard_filter cs sd ed df) \<and>
      (\<forall>c. c \<notin> set dashboard_key_metrics \<and> c \<noteq> ''death_rate'' \<and> c \<noteq> ''vaccination_rate'' \<longrightarrow>
         map_of (cols h) c = map_of (cols (dashboard_filter cs sd ed df)) c) \<and>
      (\<forall>c. map_of (cols (dashboard_filter cs sd ed df)) c \<noteq> None \<longrightarrow> map_of (cols h) c \<noteq> None)"
  proof
    let ?S = "dashboard_filter cs sd ed df"
    let ?F = "ffill_all dashboard_key_metrics ?S"
    assume "dashboard_clean cs sd ed df = Inr h"
    then obtain g where g: "add_rate ''death_rate'' ''total_deaths'' ''total_cases'' ?F = Inr g"
      and h: "add_rate ''vaccination_rate'' ''people_vaccinated'' ''population'' g = Inr h"
      by (auto simp: dashboard_clean_def add_death_rate_def add_vaccination_rate_def split: sum.splits)
    have wf: "wf_frame ?F" using assms by (simp add: wf_ffill_all wf_dashboard_filter)
    note fr = add_rate_frame[OF g]
    note hr = add_rate_frame[OF h]
    have wfg: "wf_frame g" using wf g by (rule wf_add_rate)
    have 1: "wf_frame h" using wfg h by (rule wf_add_rate)
    have 2: "nrows h = nrows ?S" using fr(3) hr(3) by (simp add: ffill_all_nrows)
    have 3: "locations h = locations ?S" using fr(1) hr(1) by (simp add: ffill_all_locations)
    have 4: "dates h = dates ?S" using fr(2) hr(2) by (simp add: ffill_all_dates)
    have 5: "\<forall>c. c \<notin> set dashboard_key_metrics \<and> c \<noteq> ''death_rate'' \<and> c \<noteq> ''vaccination_rate'' \<longrightarrow>
         map_of (cols h) c = map_of (cols ?S) c"
      using fr(4) hr(4) by (simp add: ffill_all_other)
    have 6: "\<forall>c. map_of (cols ?S) c \<noteq> None \<longrightarrow> map_of (cols h) c \<noteq> None"
    proof (intro allI impI)
      fix c assume "map_of (cols ?S) c \<noteq> None"
      then have "map_of (cols ?F) c \<noteq> None" by (simp add: ffill_all_dom)
      then have "map_of (cols g) c \<noteq> None"
        using fr(4)[of c] fr(5) by (cases "c = ''death_rate''") simp_all
      then show "map_of (cols h) c \<noteq> None"
        using hr(4)[of c] hr(5) by (cases "c = ''vaccination_rate''") simp_all
    qed
    show "wf_frame h \<and> nrows h = nrows ?S \<and> locations h = locations ?S \<and> dates h = dates ?S \<and>
      (\<forall>c. c \<notin> set dashboard_key_metrics \<and> c \<noteq> ''death_rate'' \<and> c \<noteq> ''vaccination_rate'' \<longrightarrow>
         map_of (cols h) c = map_of (cols ?S) c) \<and>
      (\<forall>c. map_of (cols ?S) c \<noteq> None \<longrightarrow> map_of (cols h) c \<noteq> None)"
      by (intro conjI, rule 1, rule 2, rule 3, rule 4, rule 5, rule 6)
  qed
  show ?thesis
    by (rule conjI[OF part1 part2])
qed

theorem clean_preserves_frame_witness:
  "wf_frame rate_example \<and>
   (\<exists>h. dashboard_clean countries 0 10 rate_example = Inr h \<and> wf_frame h \<and> nrows h = 1 \<and>
      locations h = [''Kenya''] \<and> dates h = [1] \<and>
      map_of (cols h) ''population'' = Some [Some 1000])"
proof -
  have wf: "wf_frame rate_example" by (simp add: wf_frame_def rate_example_def nrows_def)
  have "dashboard_death_rate countries 0 10 rate_example = Inr [Some 5]" by code_simp
  then obtain h where h: "dashboard_clean countries 0 10 rate_example = Inr h"
    by (auto simp: dashboard_death_rate_def split: sum.splits)
  have S: "dashboard_filter countries 0 10 rate_example = rate_example" by code_simp
  have p: "''population'' \<notin> set dashboard_key_metrics \<and> ''population'' \<noteq> ''death_rate'' \<and>
      ''population'' \<noteq> ''vaccination_rate''"
    by (simp add: dashboard_key_metrics_def)
  from clean_preserves_frame[OF wf, where cs=countries and sd=0 and ed=10 and h=h, THEN conjunct2] h
  have "wf_frame h" "nrows h = nrows rate_example" "locations h = locations rate_example"
    "dates h = dates rate_example"
    "\<forall>c. c \<notin> set dashboard_key_metrics \<and> c \<noteq> ''death_rate'' \<and> c \<noteq> ''vaccination_rate'' \<longrightarrow>
         map_of (cols h) c = map_of (cols rate_example) c"
    unfolding S by simp_all
  then show ?thesis using wf h p by (simp add: rate_example_def nrows_def)
qed

section \<open>Absent entities and absent columns\<close>

text \<open>An entity that the frame does not have leaves an empty subset, and no error.\<close>

lemma keep_all_False: "\<forall>b\<in>set msk. \<not> b \<Longrightarrow> keep msk xs = []"
  by (induction msk arbitrary: xs) (auto simp: keep_def zip_Cons1 split: list.splits)

lemma tracker_filter_absent:
  assumes "set cs \<inter> set (locations df) = {}"
  shows "nrows (tracker_filter cs df) = 0"
proof -
  have "\<forall>b\<in>set (isin (locations df) cs). \<not> b" using assms by (auto simp: isin_def)
  then have "keep (isin (locations df) cs) (locations df) = []" by (rule keep_all_False)
  then show ?thesis by (simp add: tracker_filter_def select_rows_def nrows_def)
qed

text \<open>The loop over the key metrics leaves the frame as it is at a metric that is no column.\<close>

lemma ffill_metric_absent: "map_of (cols f) m = None \<Longrightarrow> ffill_metric m f = f"
  by (simp add: ffill_metric_def)

text \<open>
  Claim C8. The loop over the key metrics skips a metric that is not a column, but the
  death-rate step reads \<^verbatim>\<open>total_cases\<close> and \<^verbatim>\<open>total_deaths\<close> without that check: on a
  frame with no \<^verbatim>\<open>total_deaths\<close> column both pipelines stop with a \<^verbatim>\<open>KeyError\<close>.
\<close>

theorem missing_deaths_column_fails:
  "tracker_clean countries no_deaths_column = Inl (KeyError ''total_deaths'') \<and>
   dashboard_clean countries 0 10 no_deaths_column = Inl (KeyError ''total_deaths'')"
  by code_simp

section \<open>Rolling mean\<close>

lemma length_rolling_mean: "length (rolling_mean w xs) = length xs"
  by (simp add: rolling_mean_def)

lemma rolling_mean_early:
  assumes "i < length xs" "i + 1 < w"
  shows "rolling_mean w xs ! i = None"
proof -
  let ?win = "drop (i + 1 - w) (take (i + 1) xs)"
  have "length (filter (\<lambda>x. x \<noteq> None) ?win) \<le> length ?win" by (rule length_filter_le)
  also have "\<dots> \<le> i + 1" by simp
  finally have "length (map the (filter (\<lambda>x. x \<noteq> None) ?win)) < w" using assms(2) by simp
  then show ?thesis using assms(1) by (simp add: rolling_mean_def Let_def)
qed

lemma drop_take_nth: "b \<le> length xs \<Longrightarrow> drop a (take b xs) = map (\<lambda>k. xs ! k) [a..<b]"
proof -
  assume b: "b \<le> length xs"
  have "take b xs = map (\<lambda>k. take b xs ! k) [0..<length (take b xs)]" by (rule map_nth[symmetric])
  also have "\<dots> = map (\<lambda>k. xs ! k) [0..<b]" using b by (simp add: min_def)
  finally have "drop a (take b xs) = drop a (map (\<lambda>k. xs ! k) [0..<b])" by simp
  then show ?thesis by (simp add: drop_map)
qed

lemma rolling_mean_full:
  assumes "i < length xs" "w \<le> i + 1" "0 < w"
    and "\<forall>k. i + 1 - w \<le> k \<and> k \<le> i \<longrightarrow> xs ! k = Some (y k)"
  shows "rolling_mean w xs ! i = Some ((\<Sum>k = i + 1 - w..i. y k) / real w)"
proof -
  let ?win = "drop (i + 1 - w) (take (i + 1) xs)"
  have "?win = map (\<lambda>k. xs ! k) [i + 1 - w..<i + 1]"
    using assms(1) by (simp add: drop_take_nth)
  also have "\<dots> = map (\<lambda>k. Some (y k)) [i + 1 - w..<i + 1]"
    using assms(4) by (intro map_cong) auto
  finally have win: "?win = map (\<lambda>k. Some (y k)) [i + 1 - w..<i + 1]" .
  have obs: "map the (filter (\<lambda>x. x \<noteq> None) ?win) = map y [i + 1 - w..<i + 1]"
    unfolding win by (simp add: filter_map comp_def)
  have "i + 1 - (i + 1 - w) = w" using assms(2) by arith
  then have len: "length (map y [i + 1 - w..<i + 1]) = w" by (simp only: length_map length_upt)
  have "sum_list (map y [i + 1 - w..<i + 1]) = sum y {i + 1 - w..<i + 1}"
    by (simp only: interv_sum_list_conv_sum_set_nat set_upt)
  also have "{i + 1 - w..<i + 1} = {i + 1 - w..i}" by auto
  finally have "sum_list (map y [i + 1 - w..<i + 1]) = (\<Sum>k = i + 1 - w..i. y k)" .
  note sm = this
  have nth: "rolling_mean w xs ! i =
      (if length (map the (filter (\<lambda>x. x \<noteq> None) ?win)) < w then None
       else Some (sum_list (map the (filter (\<lambda>x. x \<noteq> None) ?win)) /
                  real (length (map the (filter (\<lambda>x. x \<noteq> None) ?win)))))"
    using assms(1) by (simp add: rolling_mean_def Let_def)
  show ?thesis unfolding nth obs len sm by simp
qed

lemma rolling_mean_constant:
  assumes "\<forall>k<length xs. xs ! k = Some v" "i < length xs" "0 < w" "rolling_mean w xs ! i = Some m"
  shows "m = v"
proof -
  have wi: "w \<le> i + 1"
  proof (rule ccontr)
    assume "\<not> w \<le> i + 1"
    then have "rolling_mean w xs ! i = None" using assms(2) by (intro rolling_mean_early) auto
    then show False using assms(4) by simp
  qed
  have "\<forall>k. i + 1 - w \<le> k \<and> k \<le> i \<longrightarrow> xs ! k = Some ((\<lambda>_. v) k)"
    using assms(1,2) by auto
  from rolling_mean_full[OF assms(2) wi assms(3) this]
  have "rolling_mean w xs ! i = Some ((\<Sum>k = i + 1 - w..i. v) / real w)" .
  also have "(\<Sum>k = i + 1 - w..i. v) = real w * v" using wi by simp
  finally show ?thesis using assms(3,4) by simp
qed

lemma rolling7_series:
  fixes X :: series
  shows "length (rolling_mean 7 X) = length X"
    and "\<forall>p<length X. p < 6 \<longrightarrow> rolling_mean 7 X ! p = None"
    and "length X < 7 \<longrightarrow> (\<forall>p<length X. rolling_mean 7 X ! p = None)"
    and "\<forall>p<length X. 6 \<le> p \<and> (\<forall>k. p - 6 \<le> k \<and> k \<le> p \<longrightarrow> X ! k = Some (y k)) \<longrightarrow>
           rolling_mean 7 X ! p = Some ((\<Sum>k = p - 6..p. y k) / 7)"
    and "(\<forall>k<length X. X ! k = Some v) \<longrightarrow>
           (\<forall>p<length X. \<forall>m. rolling_mean 7 X ! p = Some m \<longrightarrow> m = v)"
proof -
  show "length (rolling_mean 7 X) = length X" by (rule length_rolling_mean)
  show "\<forall>p<length X. p < 6 \<longrightarrow> rolling_mean 7 X ! p = None"
    by (intro allI impI rolling_mean_early) simp_all
  show "length X < 7 \<longrightarrow> (\<forall>p<length X. rolling_mean 7 X ! p = None)"
    by (intro allI impI rolling_mean_early) simp_all
  show "\<forall>p<length X. 6 \<le> p \<and> (\<forall>k. p - 6 \<le> k \<and> k \<le> p \<longrightarrow> X ! k = Some (y k)) \<longrightarrow>
           rolling_mean 7 X ! p = Some ((\<Sum>k = p - 6..p. y k) / 7)"
  proof (intro allI impI, elim conjE)
    fix p assume p: "p < length X" "6 \<le> p"
      and w: "\<forall>k. p - 6 \<le> k \<and> k \<le> p \<longrightarrow> X ! k = Some (y k)"
    have "\<forall>k. p + 1 - 7 \<le> k \<and> k \<le> p \<longrightarrow> X ! k = Some (y k)" using w by simp
    from rolling_mean_full[OF p(1) _ _ this] p(2)
    show "rolling_mean 7 X ! p = Some ((\<Sum>k = p - 6..p. y k) / 7)" by simp
  qed
  show "(\<forall>k<length X. X ! k = Some v) \<longrightarrow>
           (\<forall>p<length X. \<forall>m. rolling_mean 7 X ! p = Some m \<longrightarrow> m = v)"
  proof (intro allI impI)
    fix p m assume "\<forall>k<length X. X ! k = Some v" "p < length X" "rolling_mean 7 X ! p = Some m"
    then show "m = v" by (intro rolling_mean_constant[of X v p 7 m]) simp_all
  qed
qed

text \<open>
  Claim C5. The rolling average is computed per entity, over the entity's \<^verbatim>\<open>new_cases\<close>
  in the frame's row order (the date order when the frame is ordered by date within each
  entity): the tracker takes the rolling mean of the entity's series, and the dashboard's
  grouped transform puts the same values at the entity's rows. In that series the first 6
  positions are undefined, every position is undefined when the entity has fewer than 7
  observations, a position from the 7th on whose 7 trailing values are all known holds
  their mean, and on a series that is constantly \<open>v\<close> every defined value is \<open>v\<close>.
\<close>

theorem rolling_average_per_entity:
  assumes "getcol f ''new_cases'' = Inr s"
  shows "(tracker_rolling_avg f e = Inr (rolling_mean 7 (group_series (locations f) s e))) \<and>
    (\<exists>g r. dashboard_rolling ''new_cases'' f = Inr g \<and>
           getcol g ''rolling_new_cases'' = Inr r \<and>
           group_series (locations f) r e = rolling_mean 7 (group_series (locations f) s e)) \<and>
    (e \<in> set (locations f) \<longrightarrow> date_ordered f \<longrightarrow>
           sorted_wrt (<) (group_series (locations f) (dates f) e)) \<and>
    (length (rolling_mean 7 (group_series (locations f) s e))
           = length (group_series (locations f) s e)) \<and>
    (\<forall>p<length (group_series (locations f) s e). p < 6 \<longrightarrow>
           rolling_mean 7 (group_series (locations f) s e) ! p = None) \<and>
    (length (group_series (locations f) s e) < 7 \<longrightarrow>
           (\<forall>p<length (group_series (locations f) s e).
              rolling_mean 7 (group_series (locations f) s e) ! p = None)) \<and>
    (\<forall>p<length (group_series (locations f) s e).
           6 \<le> p \<and> (\<forall>k. p - 6 \<le> k \<and> k \<le> p \<longrightarrow> group_series (locations f) s e ! k = Some (y k))
           \<longrightarrow> rolling_mean 7 (group_series (locations f) s e) ! p
                 = Some ((\<Sum>k = p - 6..p. y k) / 7)) \<and>
    ((\<forall>k<length (group_series (locations f) s e). group_series (locations f) s e ! k = Some v)
           \<longrightarrow> (\<forall>p<length (group_series (locations f) s e). \<forall>m.
                  rolling_mean 7 (group_series (locations f) s e) ! p = Some m \<longrightarrow> m = v))"
proof -
  let ?X = "group_series (locations f) s e"
  have part1: "tracker_rolling_avg f e = Inr (rolling_mean 7 ?X)"
    using assms by (simp add: tracker_rolling_avg_def)
  have "group_series (locations f) (groupby_transform (locations f) (rolling_mean 7) s) e
      = rolling_mean 7 ?X"
    by (rule groupby_transform_group) (rule length_rolling_mean)
  then have part2: "\<exists>g r. dashboard_rolling ''new_cases'' f = Inr g \<and>
           getcol g ''rolling_new_cases'' = Inr r \<and>
           group_series (locations f) r e = rolling_mean 7 ?X"
    using assms by (simp add: dashboard_rolling_def getcol_setcol)
  have part3: "e \<in> set (locations f) \<longrightarrow> date_ordered f \<longrightarrow>
           sorted_wrt (<) (group_series (locations f) (dates f) e)"
    by (simp add: date_ordered_def list_all_iff)
  have part4: "length (rolling_mean 7 ?X) = length ?X" by (rule rolling7_series(1))
  have part5: "\<forall>p<length ?X. p < 6 \<longrightarrow> rolling_mean 7 ?X ! p = None" by (rule rolling7_series(2))
  have part6: "length ?X < 7 \<longrightarrow> (\<forall>p<length ?X. rolling_mean 7 ?X ! p = None)"
    by (rule rolling7_series(3))
  have part7: "\<forall>p<length ?X. 6 \<le> p \<and> (\<forall>k. p - 6 \<le> k \<and> k \<le> p \<longrightarrow> ?X ! k = Some (y k))
           \<longrightarrow> rolling_mean 7 ?X ! p = Some ((\<Sum>k = p - 6..p. y k) / 7)"
    by (rule rolling7_series(4))
  have part8: "(\<forall>k<length ?X. ?X ! k = Some v)
           \<longrightarrow> (\<forall>p<length ?X. \<forall>m. rolling_mean 7 ?X ! p = Some m \<longrightarrow> m = v)"
    by (rule rolling7_series(5))
  show ?thesis
    by (rule conjI[OF part1 conjI[OF part2 conjI[OF part3 conjI[OF part4 conjI[OF part5 conjI[OF part6 conjI[OF part7 part8]]]]]]])
qed

theorem rolling_average_per_entity_witness:
  "getcol week_example ''new_cases''
     = Inr [Some 3, Some 3, Some 3, Some 3, Some 3, Some 3, Some 3, Some 3] \<and>
   tracker_rolling_avg week_example ''Kenya''
     = Inr [None, None, None, None, None, None, Some 3, Some 3]"
proof -
  let ?s = "[Some 3, Some 3, Some 3, Some 3, Some 3, Some 3, Some 3, Some 3] :: series"
  have c: "getcol week_example ''new_cases'' = Inr ?s"
    by (simp add: getcol_def week_example_def)
  have "rolling_mean 7 (group_series (locations week_example) ?s ''Kenya'')
      = [None, None, None, None, None, None, Some 3, Some 3]"
    by code_simp
  then show ?thesis using c rolling_average_per_entity[OF c, where e="''Kenya''", THEN conjunct1] by simp
qed

section \<open>Latest snapshot\<close>

lemma last_sort_key_max:
  fixes f :: "'a \<Rightarrow> 'b::linorder"
  assumes "xs \<noteq> []"
  shows "last (sort_key f xs) \<in> set xs" and "\<forall>x\<in>set xs. f x \<le> f (last (sort_key f xs))"
proof -
  let ?ys = "sort_key f xs"
  have ne: "?ys \<noteq> []"
  proof
    assume "?ys = []"
    then have "set ?ys = {}" by simp
    then have "set xs = {}" by (simp only: set_sort)
    then show False using assms by simp
  qed
  then have "last ?ys \<in> set ?ys" by (rule last_in_set)
  then show "last ?ys \<in> set xs" by simp
  have sorted: "sorted (map f ?ys)" by (rule sorted_sort_key)
  show "\<forall>x\<in>set xs. f x \<le> f (last ?ys)"
  proof
    fix x assume "x \<in> set xs"
    then have "x \<in> set ?ys" by simp
    then obtain k where k: "k < length ?ys" "?ys ! k = x"
      unfolding in_set_conv_nth by blast
    have "map f ?ys ! k \<le> map f ?ys ! (length ?ys - 1)"
      using sorted k(1) by (intro sorted_nth_mono) auto
    then show "f x \<le> f (last ?ys)" using k ne by (simp add: last_conv_nth)
  qed
qed

lemma group_rows_nonempty: "e \<in> set ks \<Longrightarrow> group_rows ks e \<noteq> []"
proof -
  assume "e \<in> set ks"
  then obtain j where "j < length ks" "ks ! j = e" by (auto simp: in_set_conv_nth)
  then have "j \<in> set (group_rows ks e)" by (simp add: group_rows_mem)
  then show ?thesis by auto
qed

text \<open>The row chosen for an entity of the frame is one of its rows, with the greatest date.\<close>

lemma latest_row_of:
  assumes "e \<in> set (locations f)"
  defines "i \<equiv> last (sort_key (\<lambda>j. dates f ! j) (group_rows (locations f) e))"
  shows "i < nrows f" and "locations f ! i = e"
    and "\<forall>j<nrows f. locations f ! j = e \<longrightarrow> dates f ! j \<le> dates f ! i"
proof -
  note ne = group_rows_nonempty[OF assms(1)]
  have "i \<in> set (group_rows (locations f) e)"
    unfolding i_def by (rule last_sort_key_max(1)[OF ne])
  then show "i < nrows f" and "locations f ! i = e"
    by (simp_all add: group_rows_mem nrows_def)
  show "\<forall>j<nrows f. locations f ! j = e \<longrightarrow> dates f ! j \<le> dates f ! i"
  proof (intro allI impI)
    fix j assume "j < nrows f" "locations f ! j = e"
    then have "j \<in> set (group_rows (locations f) e)" by (simp add: group_rows_mem nrows_def)
    then show "dates f ! j \<le> dates f ! i"
      unfolding i_def using last_sort_key_max(2)[OF ne, of "\<lambda>j. dates f ! j"] by blast
  qed
qed

lemma latest_rows_locations:
  "map (\<lambda>i. locations f ! i) (latest_rows f) = sort (remdups (locations f))"
proof -
  have "map (\<lambda>i. locations f ! i) (latest_rows f) =
      map (\<lambda>e. locations f ! last (sort_key (\<lambda>j. dates f ! j) (group_rows (locations f) e)))
        (sort (remdups (locations f)))"
    by (simp add: latest_rows_def comp_def)
  also have "\<dots> = map (\<lambda>e. e) (sort (remdups (locations f)))"
    by (rule map_cong) (simp_all add: latest_row_of(2))
  finally show ?thesis by simp
qed

lemma unique_entity_date_nth:
  assumes "unique_entity_date f" "length (dates f) = nrows f"
    and "i < nrows f" "j < nrows f" "locations f ! j = locations f ! i" "dates f ! j = dates f ! i"
  shows "j = i"
proof (rule ccontr)
  assume "j \<noteq> i"
  moreover have "i < length (zip (locations f) (dates f))" "j < length (zip (locations f) (dates f))"
    using assms(2,3,4) by (simp_all add: nrows_def)
  ultimately have "zip (locations f) (dates f) ! j \<noteq> zip (locations f) (dates f) ! i"
    using assms(1) unfolding unique_entity_date_def distinct_conv_nth by blast
  then show False using assms(2-6) by (simp add: nrows_def)
qed

lemma map_of_take_rows:
  "map_of (cols (take_rows idx f)) c = map_option (\<lambda>s. map (\<lambda>i. s ! i) idx) (map_of (cols f) c)"
proof -
  have "map_of (map (\<lambda>p. (fst p, map (\<lambda>i. snd p ! i) idx)) al) c
      = map_option (\<lambda>s. map (\<lambda>i. s ! i) idx) (map_of al c)"
    for al :: "(string \<times> series) list"
    by (induction al) auto
  then show ?thesis by (simp add: take_rows_def)
qed

lemma length_latest_rows: "length (latest_rows f) = length (remdups (locations f))"
  by (simp add: latest_rows_def)

lemma latest_rows_nth:
  assumes "p < length (latest_rows f)"
  shows "latest_rows f ! p < nrows f"
    and "\<forall>j<nrows f. locations f ! j = locations f ! (latest_rows f ! p)
           \<longrightarrow> dates f ! j \<le> dates f ! (latest_rows f ! p)"
proof -
  let ?es = "sort (remdups (locations f))"
  have p: "p < length ?es" using assms by (simp add: length_latest_rows)
  then have "?es ! p \<in> set ?es" by (rule nth_mem)
  then have e: "?es ! p \<in> set (locations f)" by simp
  have i: "latest_rows f ! p = last (sort_key (\<lambda>j. dates f ! j) (group_rows (locations f) (?es ! p)))"
    using p by (simp add: latest_rows_def)
  show "latest_rows f ! p < nrows f" unfolding i by (rule latest_row_of(1)[OF e])
  show "\<forall>j<nrows f. locations f ! j = locations f ! (latest_rows f ! p)
           \<longrightarrow> dates f ! j \<le> dates f ! (latest_rows f ! p)"
    unfolding i using latest_row_of(2,3)[OF e] by simp
qed

text \<open>
  Claim C6. The latest-snapshot frame has exactly one row for each entity of the filtered
  frame (its entity column lists the frame's entities, each once), and that row is the
  entity's observation with the maximum date: every other row of the entity in the frame
  has a strictly earlier date, given that no two rows share entity and date.
\<close>

theorem latest_snapshot:
  assumes "wf_frame f" "unique_entity_date f"
  shows "(locations (latest_data f) = sort (remdups (locations f))) \<and>
    (distinct (locations (latest_data f)) \<and> set (locations (latest_data f)) = set (locations f)) \<and>
    (\<forall>p<nrows (latest_data f). \<exists>i<nrows f. latest_rows f ! p = i \<and>
          locations (latest_data f) ! p = locations f ! i \<and>
          dates (latest_data f) ! p = dates f ! i \<and>
          (\<forall>c s. map_of (cols f) c = Some s \<longrightarrow>
             (\<exists>t. map_of (cols (latest_data f)) c = Some t \<and> t ! p = s ! i)) \<and>
          (\<forall>j<nrows f. locations f ! j = locations f ! i \<and> j \<noteq> i \<longrightarrow> dates f ! j < dates f ! i))"
proof -
  have loc: "locations (latest_data f) = map (\<lambda>i. locations f ! i) (latest_rows f)"
    by (simp add: latest_data_def take_rows_def)
  have part1: "locations (latest_data f) = sort (remdups (locations f))"
    by (simp add: loc latest_rows_locations)
  have part2: "distinct (locations (latest_data f)) \<and> set (locations (latest_data f)) = set (locations f)"
    unfolding part1 by simp
  have len: "length (dates f) = nrows f" using assms(1) by (simp add: wf_frame_def)
  have part3: "\<forall>p<nrows (latest_data f). \<exists>i<nrows f. latest_rows f ! p = i \<and>
          locations (latest_data f) ! p = locations f ! i \<and>
          dates (latest_data f) ! p = dates f ! i \<and>
          (\<forall>c s. map_of (cols f) c = Some s \<longrightarrow>
             (\<exists>t. map_of (cols (latest_data f)) c = Some t \<and> t ! p = s ! i)) \<and>
          (\<forall>j<nrows f. locations f ! j = locations f ! i \<and> j \<noteq> i \<longrightarrow> dates f ! j < dates f ! i)"
  proof (intro allI impI)
    fix p assume "p < nrows (latest_data f)"
    then have p: "p < length (latest_rows f)" by (simp add: nrows_def loc)
    let ?i = "latest_rows f ! p"
    note r = latest_rows_nth[OF p]
    have a: "locations (latest_data f) ! p = locations f ! ?i" using p by (simp add: loc)
    have b: "dates (latest_data f) ! p = dates f ! ?i"
      using p by (simp add: latest_data_def take_rows_def)
    have c: "\<forall>c s. map_of (cols f) c = Some s \<longrightarrow>
             (\<exists>t. map_of (cols (latest_data f)) c = Some t \<and> t ! p = s ! ?i)"
      using p by (simp add: latest_data_def map_of_take_rows)
    have d: "\<forall>j<nrows f. locations f ! j = locations f ! ?i \<and> j \<noteq> ?i \<longrightarrow> dates f ! j < dates f ! ?i"
    proof (intro allI impI, elim conjE)
      fix j assume j: "j < nrows f" "locations f ! j = locations f ! ?i" "j \<noteq> ?i"
      have le: "dates f ! j \<le> dates f ! ?i" using r(2) j(1,2) by blast
      have "dates f ! j \<noteq> dates f ! ?i"
        using unique_entity_date_nth[OF assms(2) len r(1) j(1,2)] j(3) by blast
      then show "dates f ! j < dates f ! ?i" using le by simp
    qed
    show "\<exists>i<nrows f. latest_rows f ! p = i \<and>
          locations (latest_data f) ! p = locations f ! i \<and>
          dates (latest_data f) ! p = dates f ! i \<and>
          (\<forall>c s. map_of (cols f) c = Some s \<longrightarrow>
             (\<exists>t. map_of (cols (latest_data f)) c = Some t \<and> t ! p = s ! i)) \<and>
          (\<forall>j<nrows f. locations f ! j = locations f ! i \<and> j \<noteq> i \<longrightarrow> dates f ! j < dates f ! i)"
      by (rule exI[of _ ?i], intro conjI, rule r(1), rule refl, rule a, rule b, rule c, rule d)
  qed
  show ?thesis
    by (rule conjI[OF part1 conjI[OF part2 part3]])
qed

theorem latest_snapshot_witness:
  "wf_frame snapshot_example \<and> unique_entity_date snapshot_example \<and>
   locations (latest_data snapshot_example) = [''A'', ''B''] \<and>
   dates (latest_data snapshot_example) = [5, 2]"
proof -
  have wf: "wf_frame snapshot_example" by (simp add: wf_frame_def snapshot_example_def nrows_def)
  have u: "unique_entity_date snapshot_example"
    by (simp add: unique_entity_date_def snapshot_example_def)
  have s: "sort (remdups (locations snapshot_example)) = [''A'', ''B'']" by code_simp
  have d: "dates (latest_data snapshot_example) = [5, 2]" by code_simp
  show ?thesis using wf u d latest_snapshot[OF wf u, THEN conjunct1] s by simp
qed

section \<open>Case growth over the last 30 observations\<close>

lemma growth_of_cases:
  "growth_of cur base =
     (case base of None \<Rightarrow> Some 0
      | Some y \<Rightarrow> if 0 < y then (case cur of None \<Rightarrow> None | Some x \<Rightarrow> Some ((x - y) / y * 100))
                   else Some 0)"
  by (simp add: growth_of_def fpos_def fdiv_def fsub_def split: option.splits)

lemma growth_line_few:
  "length (group_rows (locations f) c) < 30 \<Longrightarrow> growth_line f c = Inr None"
  by (simp add: growth_line_def Let_def)

lemma growth_line_many:
  assumes "30 \<le> length (group_rows (locations f) c)" "getcol f ''total_cases'' = Inr tc"
  shows "growth_line f c =
     Inr (Some (c, growth_of
       (tc ! last (sort_key (\<lambda>j. dates f ! j) (group_rows (locations f) c)))
       (tc ! (sort_key (\<lambda>j. dates f ! j) (group_rows (locations f) c)
                ! (length (group_rows (locations f) c) - 30)))))"
proof -
  let ?rows = "sort_key (\<lambda>j. dates f ! j) (group_rows (locations f) c)"
  have "?rows \<noteq> []"
  proof
    assume "?rows = []"
    then have "length ?rows = 0" by (simp only: list.size)
    then show False using assms(1) by simp
  qed
  then have "?rows ! (length ?rows - 1) = last ?rows" by (simp add: last_conv_nth)
  then show ?thesis using assms by (simp add: growth_line_def Let_def)
qed

lemma growth_report_lines:
  assumes "getcol f ''total_cases'' = Inr tc"
  shows "\<exists>ls. growth_report f cs = Inr ls \<and>
     map fst ls = filter (\<lambda>c. 30 \<le> length (group_rows (locations f) c)) cs"
proof (induction cs)
  case Nil
  show ?case by simp
next
  case (Cons c cs)
  then obtain ls where ls: "growth_report f cs = Inr ls"
    "map fst ls = filter (\<lambda>c. 30 \<le> length (group_rows (locations f) c)) cs"
    by blast
  show ?case
  proof (cases "30 \<le> length (group_rows (locations f) c)")
    case True
    then show ?thesis using ls growth_line_many[OF True assms] by simp
  next
    case False
    then have "growth_line f c = Inr None" by (intro growth_line_few) simp
    then show ?thesis using ls False by simp
  qed
qed

text \<open>The tracker's pipeline returns a frame exactly when the two columns of the rate exist.\<close>

lemma tracker_clean_total:
  "(\<exists>g. tracker_clean cs df = Inr g) \<longleftrightarrow>
     map_of (cols df) ''total_cases'' \<noteq> None \<and> map_of (cols df) ''total_deaths'' \<noteq> None"
proof -
  let ?F = "ffill_all tracker_key_metrics (tracker_filter cs df)"
  have dom: "map_of (cols ?F) c = None \<longleftrightarrow> map_of (cols df) c = None" for c
    by (simp add: ffill_all_dom tracker_filter_def map_of_select_rows)
  have get: "(\<exists>s. getcol ?F c = Inr s) \<longleftrightarrow> map_of (cols df) c \<noteq> None" for c
    using dom[of c] by (cases "map_of (cols ?F) c") (auto simp: getcol_def)
  show ?thesis
  proof (cases "getcol ?F ''total_cases''")
    case (Inl e)
    then have "map_of (cols df) ''total_cases'' = None" using get[of "''total_cases''"] by auto
    then show ?thesis using Inl by (simp add: tracker_clean_def add_death_rate_def add_rate_def)
  next
    case tc: (Inr a)
    then have c: "map_of (cols df) ''total_cases'' \<noteq> None" using get[of "''total_cases''"] by blast
    show ?thesis
    proof (cases "getcol ?F ''total_deaths''")
      case (Inl e)
      then have "map_of (cols df) ''total_deaths'' = None" using get[of "''total_deaths''"] by auto
      then show ?thesis using Inl tc by (simp add: tracker_clean_def add_death_rate_def add_rate_def)
    next
      case (Inr b)
      then have "map_of (cols df) ''total_deaths'' \<noteq> None" using get[of "''total_deaths''"] by blast
      then show ?thesis using Inr tc c by (simp add: tracker_clean_def add_death_rate_def add_rate_def)
    qed
  qed
qed

lemma tracker_clean_locations:
  "tracker_clean cs df = Inr g \<Longrightarrow> locations g = locations (tracker_filter cs df)"
  using add_rate_frame(1)[of "''death_rate''" "''total_deaths''" "''total_cases''"
      "ffill_all tracker_key_metrics (tracker_filter cs df)" g]
  by (simp add: tracker_clean_def add_death_rate_def ffill_all_locations)

text \<open>
  Claim C10. On the frame the tracker's pipeline returns, the growth commentary never
  fails: an entity with fewer than 30 rows gets no line; an entity with at least 30 rows
  gets one line, computed from the cases of its latest row and of its 30th row from the
  end in date order; the growth divides by the baseline only when the baseline is strictly
  positive and is 0 otherwise (also when the baseline is unknown); and the report holds
  exactly the entities of the list that have at least 30 rows, in order.
\<close>

theorem growth_report_safe:
  assumes "wf_frame df" "tracker_clean cs df = Inr g"
  shows "(length (group_rows (locations g) c) < 30 \<longrightarrow> growth_line g c = Inr None) \<and>
    (30 \<le> length (group_rows (locations g) c) \<longrightarrow>
      (\<exists>tc. getcol g ''total_cases'' = Inr tc \<and>
         growth_line g c =
           Inr (Some (c, growth_of
             (tc ! last (sort_key (\<lambda>j. dates g ! j) (group_rows (locations g) c)))
             (tc ! (sort_key (\<lambda>j. dates g ! j) (group_rows (locations g) c)
                      ! (length (group_rows (locations g) c) - 30))))))) \<and>
    (growth_of cur base =
      (case base of None \<Rightarrow> Some 0
       | Some y \<Rightarrow> if 0 < y then (case cur of None \<Rightarrow> None | Some x \<Rightarrow> Some ((x - y) / y * 100))
                    else Some 0)) \<and>
    (\<exists>ls. growth_report g ds = Inr ls \<and>
      map fst ls = filter (\<lambda>c. 30 \<le> length (group_rows (locations g) c)) ds)"
proof -
  from tracker_clean_death_rate[OF assms]
  obtain tc where tc: "getcol g ''total_cases'' = Inr tc" by (elim exE conjE)
  have part1: "length (group_rows (locations g) c) < 30 \<longrightarrow> growth_line g c = Inr None"
    by (intro impI growth_line_few)
  have part2: "30 \<le> length (group_rows (locations g) c) \<longrightarrow>
      (\<exists>tc. getcol g ''total_cases'' = Inr tc \<and>
         growth_line g c =
           Inr (Some (c, growth_of
             (tc ! last (sort_key (\<lambda>j. dates g ! j) (group_rows (locations g) c)))
             (tc ! (sort_key (\<lambda>j. dates g ! j) (group_rows (locations g) c)
                      ! (length (group_rows (locations g) c) - 30))))))"
  proof
    assume "30 \<le> length (group_rows (locations g) c)"
    from growth_line_many[OF this tc] tc
    show "\<exists>tc. getcol g ''total_cases'' = Inr tc \<and>
         growth_line g c =
           Inr (Some (c, growth_of
             (tc ! last (sort_key (\<lambda>j. dates g ! j) (group_rows (locations g) c)))
             (tc ! (sort_key (\<lambda>j. dates g ! j) (group_rows (locations g) c)
                      ! (length (group_rows (locations g) c) - 30)))))"
      by (intro exI[of _ tc] conjI)
  qed
  have part3: "growth_of cur base =
      (case base of None \<Rightarrow> Some 0
       | Some y \<Rightarrow> if 0 < y then (case cur of None \<Rightarrow> None | Some x \<Rightarrow> Some ((x - y) / y * 100))
                    else Some 0)"
    by (rule growth_of_cases)
  have part4: "\<exists>ls. growth_report g ds = Inr ls \<and>
      map fst ls = filter (\<lambda>c. 30 \<le> length (group_rows (locations g) c)) ds"
    by (rule growth_report_lines[OF tc])
  show ?thesis
    by (rule conjI[OF part1 conjI[OF part2 conjI[OF part3 part4]]])
qed

theorem growth_report_safe_witness:
  "wf_frame month_example \<and>
   (\<exists>g ls. tracker_clean countries month_example = Inr g \<and>
      growth_report g countries = Inr ls \<and> map fst ls = [''Kenya'']) \<and>
   growth_line month_example ''Kenya'' = Inr (Some (''Kenya'', Some 29)) \<and>
   growth_line month_example ''Brazil'' = Inr None"
proof -
  have wf: "wf_frame month_example" by (simp add: wf_frame_def month_example_def nrows_def)
  have "map_of (cols month_example) ''total_cases'' \<noteq> None \<and>
      map_of (cols month_example) ''total_deaths'' \<noteq> None"
    by (simp add: month_example_def)
  then obtain g where g: "tracker_clean countries month_example = Inr g"
    using tracker_clean_total[of countries month_example] by blast
  have "filter (\<lambda>c. 30 \<le> length (group_rows (locations (tracker_filter countries month_example)) c))
      countries = [''Kenya'']"
    by code_simp
  then have f: "filter (\<lambda>c. 30 \<le> length (group_rows (locations g) c)) countries = [''Kenya'']"
    by (simp only: tracker_clean_locations[OF g])
  from growth_report_safe[OF wf g, where ds=countries, THEN conjunct2, THEN conjunct2, THEN conjunct2]
  obtain ls where "growth_report g countries = Inr ls" "map fst ls = [''Kenya'']"
    unfolding f by (elim exE conjE)
  moreover have "growth_line month_example ''Kenya'' = Inr (Some (''Kenya'', Some 29))"
    by code_simp
  moreover have "growth_line month_example ''Brazil'' = Inr None"
    by code_simp
  ultimately show ?thesis using wf g by (intro conjI exI[of _ g] exI[of _ ls])
qed

end
